theory Spec2Isabelle
  imports Main "HOL-Library.Word" "HOL-Library.Signed_Division"
begin

unbundle bit_operations_syntax

section \<open>Data model of bmpsss.c\<close>

text \<open>
  The fixed-width integer types of the C source are words of the same width:
  \<open>uint8_t\<close>, \<open>uint16_t\<close>, \<open>uint32_t\<close>; \<open>int32_t\<close> is a 32-bit word read through
  \<open>sint\<close> where its sign matters. Loop counters of type \<open>size_t\<close> (64 bits) are
  natural numbers; counters of type \<open>uint32_t\<close> are natural numbers reduced
  \<open>mod 2 ^ 32\<close> where the source computes with them.
\<close>

type_synonym uint8 = "8 word"
type_synonym uint16 = "16 word"
type_synonym uint32 = "32 word"
type_synonym int32 = "32 word"

text \<open>
  The C functions return nothing on failure: they run into undefined behaviour
  (a read or write outside an allocation, an unassigned variable, a conversion
  whose result does not fit) or call \<open>die\<close>. Each of these is a value of \<open>error\<close>.
\<close>

datatype error =
    OutOfBounds
  | Uninitialised
  | DivisionByZero
  | SignedOverflow
  | ConversionUndefined
  | Inexact
  | Usage
  | Die string

record BMPheader =
  id_bmp :: "uint8 list"
  size_bmp :: uint32
  unused1 :: uint16
  unused2 :: uint16
  offset_bmp :: uint32

record DIBheader =
  size_dib :: uint32
  width :: uint32
  height :: int32
  nplanes :: uint16
  depth :: uint16
  compression :: uint32
  pixelarraysize :: uint32
  hres :: uint32
  vres :: uint32
  ncolors :: uint32
  nimpcolors :: uint32

record Bitmap =
  bmpheader :: BMPheader
  dibheader :: DIBheader
  palette :: "uint8 list"
  imgpixels :: "uint8 list"

definition BMP_HEADER_SIZE :: nat where "BMP_HEADER_SIZE = 14"
definition DIB_HEADER_SIZE :: nat where "DIB_HEADER_SIZE = 40"
definition PALETTE_SIZE :: nat where "PALETTE_SIZE = 1024"
definition PIXEL_ARRAY_OFFSET :: nat where
  "PIXEL_ARRAY_OFFSET = BMP_HEADER_SIZE + DIB_HEADER_SIZE + PALETTE_SIZE"
definition BITS_PER_PIXEL :: nat where "BITS_PER_PIXEL = 8"
definition PRIME :: int where "PRIME = 251"

text \<open>The table \<open>modinv[PRIME]\<close> of modular multiplicative inverses.\<close>

definition modinv :: "uint8 list" where
  "modinv = [
    0, 1, 126, 84, 63, 201, 42, 36, 157, 28, 226, 137, 21, 58, 18, 67, 204,
    192, 14, 185, 113, 12, 194, 131, 136, 241, 29, 93, 9, 26, 159, 81, 102,
    213, 96, 208, 7, 95, 218, 103, 182, 49, 6, 216, 97, 106, 191, 235, 68, 41,
    246, 64, 140, 90, 172, 178, 130, 229, 13, 234, 205, 107, 166, 4, 51, 112,
    232, 15, 48, 211, 104, 99, 129, 196, 173, 164, 109, 163, 177, 197, 91, 31,
    150, 124, 3, 189, 108, 176, 174, 110, 53, 80, 221, 27, 243, 37, 34, 44,
    146, 71, 123, 169, 32, 39, 70, 153, 45, 61, 86, 76, 89, 199, 65, 20, 240,
    227, 132, 118, 117, 135, 228, 195, 179, 100, 83, 249, 2, 168, 151, 72, 56,
    23, 116, 134, 133, 119, 24, 11, 231, 186, 52, 162, 175, 165, 190, 206, 98,
    181, 212, 219, 82, 128, 180, 105, 207, 217, 214, 8, 224, 30, 171, 198, 141,
    77, 75, 143, 62, 248, 127, 101, 220, 160, 54, 74, 88, 142, 87, 78, 55, 122,
    152, 147, 40, 203, 236, 19, 139, 200, 247, 85, 144, 46, 17, 238, 22, 121,
    73, 79, 161, 111, 187, 5, 210, 183, 16, 60, 145, 154, 35, 245, 202, 69,
    148, 33, 156, 244, 43, 155, 38, 149, 170, 92, 225, 242, 158, 222, 10, 115,
    120, 57, 239, 138, 66, 237, 59, 47, 184, 233, 193, 230, 114, 25, 223, 94,
    215, 209, 50, 188, 167, 125, 250]"

text \<open>
  \<open>mod\<close> of util.c: C's \<open>%\<close> truncates towards zero (\<open>smod\<close>), and a negative
  remainder is lifted by \<open>b\<close>.
\<close>

definition mod_util :: "int \<Rightarrow> int \<Rightarrow> int" where
  "mod_util a b = (let m = a smod b in if m < 0 then m + b else m)"

subsection \<open>Bitmaps\<close>

definition calculatepixelarraysize :: "uint32 \<Rightarrow> int32 \<Rightarrow> uint32" where
  "calculatepixelarraysize w h = ((of_nat BITS_PER_PIXEL * w + 31) div 32) * 4 * h"

definition bmpimagesize :: "Bitmap \<Rightarrow> uint32" where
  "bmpimagesize bp =
     (let sz = size_bmp (bmpheader bp)
      in if sz > 0 then size_bmp (bmpheader bp) - offset_bmp (bmpheader bp)
         else pixelarraysize (dibheader bp))"

definition initpalette :: "uint8 list" where
  "initpalette = concat (map (\<lambda>i. [of_nat i, of_nat i, of_nat i, 0]) [0..<256])"

text \<open>
  \<open>newbitmaphelper\<close> allocates the pixel array with \<open>xmalloc\<close> and does not fill
  it; the model starts it at zero. Every function below writes a pixel before
  any use of it.
\<close>

definition newbitmaphelper :: "uint32 \<Rightarrow> int32 \<Rightarrow> uint16 \<Rightarrow> uint16 \<Rightarrow> uint32 \<Rightarrow> Bitmap" where
  "newbitmaphelper w h seed shadnum pxsize =
     \<lparr> bmpheader = \<lparr> id_bmp = [66, 77],
                     size_bmp = of_nat PIXEL_ARRAY_OFFSET + pxsize,
                     unused1 = seed,
                     unused2 = shadnum,
                     offset_bmp = of_nat PIXEL_ARRAY_OFFSET \<rparr>,
       dibheader = \<lparr> size_dib = of_nat DIB_HEADER_SIZE,
                     width = w,
                     height = h,
                     nplanes = 1,
                     depth = of_nat BITS_PER_PIXEL,
                     compression = 0,
                     pixelarraysize = pxsize,
                     hres = 0,
                     vres = 0,
                     ncolors = 0,
                     nimpcolors = 0 \<rparr>,
       palette = initpalette,
       imgpixels = replicate (unat pxsize) 0 \<rparr>"

definition newbitmap :: "uint32 \<Rightarrow> int32 \<Rightarrow> uint16 \<Rightarrow> Bitmap" where
  "newbitmap w h seed = newbitmaphelper w h seed 0 (calculatepixelarraysize w h)"

definition newshadow :: "uint32 \<Rightarrow> int32 \<Rightarrow> uint16 \<Rightarrow> uint16 \<Rightarrow> Bitmap" where
  "newshadow w h seed shadownumber = newbitmaphelper w h seed shadownumber (w * h)"

text \<open>
  \<open>truncategrayscale\<close> caps the first \<open>bmpimagesize\<close> pixel bytes at 250, in
  place.
\<close>

definition truncategrayscale :: "Bitmap \<Rightarrow> error + Bitmap" where
  "truncategrayscale bp =
     (let imgsize = unat (bmpimagesize bp);
          px = imgpixels bp
      in if length px < imgsize then Inl OutOfBounds
         else Inr (bp\<lparr>imgpixels :=
                       map (\<lambda>p. if p > 250 then 250 else p) (take imgsize px)
                       @ drop imgsize px\<rparr>))"

subsection \<open>Shadow dimensions\<close>

text \<open>
  \<open>findclosestpair\<close> starts at \<open>floor(sqrt(x))\<close>, computed in \<open>double\<close>. The square
  root of IEEE 754 is correctly rounded and a \<open>uint32_t\<close> is an exact \<open>double\<close>, so
  the result is the integer square root; \<open>floor_sqrt\<close> computes it (lemma
  \<open>floor_sqrt_correct\<close>).
\<close>

function floor_sqrt :: "nat \<Rightarrow> nat" where
  "floor_sqrt n =
     (if n < 2 then n
      else (let r = 2 * floor_sqrt (n div 4)
            in if (r + 1) * (r + 1) \<le> n then r + 1 else r))"
  by pat_completeness auto
termination
  by (relation "measure (\<lambda>n. n)") auto

text \<open>
  The loop of \<open>findclosestpair\<close>: \<open>y\<close> runs down from the square root while
  \<open>y > 2\<close>; the first divisor of \<open>x\<close> is stored and the loop left. \<open>None\<close> means
  that the loop ended without storing anything.
\<close>

function findclosestpair_loop :: "nat \<Rightarrow> nat \<Rightarrow> (nat \<times> nat) option" where
  "findclosestpair_loop x y =
     (if y > 2
      then (if x mod y = 0 then Some (y, x div y) else findclosestpair_loop x (y - 1))
      else None)"
  by pat_completeness auto
termination
  by (relation "measure (\<lambda>(x, y). y)") auto

declare floor_sqrt.simps [simp del] findclosestpair_loop.simps [simp del]

text \<open>
  \<open>width\<close> and \<open>height\<close> are out-parameters. Their value before the call is
  \<open>Some (w, h)\<close>, or \<open>None\<close> when the caller passes variables it never assigned
  (\<open>formshadows\<close> does); the result is their value after the call.
\<close>

definition findclosestpair ::
    "uint32 \<Rightarrow> (uint32 \<times> int32) option \<Rightarrow> (uint32 \<times> int32) option" where
  "findclosestpair x wh =
     (case findclosestpair_loop (unat x) (floor_sqrt (unat x)) of
        Some (y, q) \<Rightarrow> Some (of_nat y, of_nat q)
      | None \<Rightarrow> wh)"

subsection \<open>Steganography\<close>

text \<open>
  The inner loop of \<open>hideshadow\<close>: the carrier bytes \<open>j, \<dots>, lim - 1\<close> receive the
  bits of \<open>byte\<close>, most significant first (\<open>RIGHTMOST_BIT_ON\<close> is \<open>OR 0x01\<close>,
  \<open>RIGHTMOST_BIT_OFF\<close> is \<open>AND 0xFE\<close>, \<open>byte <<= 1\<close> is \<open>push_bit 1\<close> on 8 bits).
\<close>

function hidebits :: "uint8 list \<Rightarrow> uint8 \<Rightarrow> nat \<Rightarrow> nat \<Rightarrow> uint8 list" where
  "hidebits p byte j lim =
     (if j < lim
      then hidebits (p[j := (if byte AND 0x80 \<noteq> 0 then (p ! j) OR 0x01 else (p ! j) AND 0xFE)])
             (push_bit 1 byte) (j + 1) lim
      else p)"
  by pat_completeness auto
termination
  by (relation "measure (\<lambda>(p, byte, j, lim). lim - j)") auto

function hidepixels :: "uint8 list \<Rightarrow> uint8 list \<Rightarrow> nat \<Rightarrow> nat \<Rightarrow> uint8 list" where
  "hidepixels p s i pixels =
     (if i < pixels
      then hidepixels (hidebits p (s ! i) (i * 8) (8 * (i + 1))) s (i + 1) pixels
      else p)"
  by pat_completeness auto
termination
  by (relation "measure (\<lambda>(p, s, i, pixels). pixels - i)") auto

declare hidebits.simps [simp del] hidepixels.simps [simp del]

text \<open>
  \<open>hideshadow\<close> changes the carrier in place and writes it to
  \<open>shadow<N>.bmp\<close>; the model returns the carrier as written. The loops touch
  the shadow bytes \<open>0, \<dots>, pixels - 1\<close> and the carrier bytes
  \<open>0, \<dots>, 8 * pixels - 1\<close>; when a buffer is shorter the C code leaves its
  allocation, which is \<open>OutOfBounds\<close>.
\<close>

definition hideshadow :: "Bitmap \<Rightarrow> Bitmap \<Rightarrow> error + Bitmap" where
  "hideshadow bp shadow =
     (let pixels = unat (bmpimagesize shadow)
      in if length (imgpixels shadow) < pixels \<or> length (imgpixels bp) < 8 * pixels
         then Inl OutOfBounds
         else Inr (bp\<lparr>bmpheader := (bmpheader bp)\<lparr>unused1 := unused1 (bmpheader shadow),
                                                   unused2 := unused2 (bmpheader shadow)\<rparr>,
                       imgpixels := hidepixels (imgpixels bp) (imgpixels shadow) 0 pixels\<rparr>))"

text \<open>
  The loops of \<open>retrieveshadow\<close>. Its counters \<open>i\<close> and \<open>j\<close> are \<open>uint32_t\<close>, so
  \<open>i*8\<close> and \<open>8*(i+1)\<close> are reduced modulo \<open>2 ^ 32\<close>; \<open>j++\<close> stays below \<open>lim\<close>.
\<close>

function readbits :: "uint8 list \<Rightarrow> uint8 \<Rightarrow> uint8 \<Rightarrow> nat \<Rightarrow> nat \<Rightarrow> error + uint8" where
  "readbits p byte msk j lim =
     (if j < lim
      then (if j < length p
            then readbits p (if p ! j AND 0x01 \<noteq> 0 then byte OR msk else byte)
                   (drop_bit 1 msk) (j + 1) lim
            else Inl OutOfBounds)
      else Inr byte)"
  by pat_completeness auto
termination
  by (relation "measure (\<lambda>(p, byte, msk, j, lim). lim - j)") auto

function readpixels :: "uint8 list \<Rightarrow> uint8 list \<Rightarrow> nat \<Rightarrow> nat \<Rightarrow> error + uint8 list" where
  "readpixels p spx i n =
     (if i < n
      then (case readbits p 0 0x80 ((i * 8) mod 2 ^ 32) ((8 * (i + 1)) mod 2 ^ 32) of
              Inl e \<Rightarrow> Inl e
            | Inr byte \<Rightarrow> readpixels p (spx[i := byte]) (i + 1) n)
      else Inr spx)"
  by pat_completeness auto
termination
  by (relation "measure (\<lambda>(p, spx, i, n). n - i)") auto

declare readbits.simps [simp del] readpixels.simps [simp del]

definition retrieveshadow :: "Bitmap \<Rightarrow> uint32 \<Rightarrow> int32 \<Rightarrow> uint16 \<Rightarrow> error + Bitmap" where
  "retrieveshadow bp w h k =
     (let key = unused1 (bmpheader bp);
          shadownumber = unused2 (bmpheader bp)
      in if k = 0 then Inl DivisionByZero
         else (case findclosestpair (calculatepixelarraysize w h div ucast k) (Some (w, h)) of
                 None \<Rightarrow> Inl Uninitialised
               | Some (w', h') \<Rightarrow>
                   (let shadow = newshadow w' h' key shadownumber;
                        shadowpixels = unat (pixelarraysize (dibheader shadow))
                    in (case readpixels (imgpixels bp) (imgpixels shadow) 0 shadowpixels of
                          Inl e \<Rightarrow> Inl e
                        | Inr px \<Rightarrow> Inr (shadow\<lparr>imgpixels := px\<rparr>)))))"

subsection \<open>The pseudo-random permutation\<close>

text \<open>
  \<open>srand\<close>, \<open>rand\<close> and \<open>RAND_MAX\<close> belong to the C library, not to this program.
  They are a parameter of the model: a state type \<open>'st\<close>, the state that
  \<open>srand(seed)\<close> sets, the step \<open>rand()\<close> from a state to its result and the
  next state, and the constant \<open>RAND_MAX\<close>.
\<close>

record 'st librand =
  lib_srand :: "uint16 \<Rightarrow> 'st"
  lib_rand :: "'st \<Rightarrow> nat \<times> 'st"
  lib_RAND_MAX :: nat

text \<open>
  Modelled from the spec: the C library's \<open>rand\<close> and \<open>srand\<close>, which are not part
  of the repository. The spec calls the generator "a linear congruential
  generator equivalent to the classic \<open>rand()\<close>"; this is the portable
  implementation printed in the C standard (\<open>next = next * 1103515245 + 12345;
  return (next / 65536) % 32768\<close>, \<open>RAND_MAX = 32767\<close>). It serves as one concrete
  library for the examples; the general statements below hold for every
  library.
\<close>

definition ansi_rand :: "nat librand" where
  "ansi_rand =
     \<lparr> lib_srand = (\<lambda>seed. unat seed),
       lib_rand = (\<lambda>next. let next' = (next * 1103515245 + 12345) mod 2 ^ 32
                          in ((next' div 65536) mod 32768, next')),
       lib_RAND_MAX = 32767 \<rparr>"

text \<open>
  \<open>randint\<close> computes \<open>rand() / (RAND_MAX + 1.0) * (max + 1)\<close> in \<open>double\<close> and
  truncates. The model computes the quotient exactly, which is what the
  \<open>double\<close> computation yields while \<open>rand() * (max + 1)\<close> stays below
  \<open>2 ^ 53\<close>; for larger products the rounded product still lies below
  \<open>max + 1\<close>, so the bound \<open>randint max \<le> max\<close> holds in both.
\<close>

definition randint :: "'st librand \<Rightarrow> nat \<Rightarrow> 'st \<Rightarrow> nat \<times> 'st" where
  "randint L mx st =
     (let (r, st') = lib_rand L st
      in ((r * (mx + 1)) div (lib_RAND_MAX L + 1), st'))"

definition swap :: "uint8 list \<Rightarrow> nat \<Rightarrow> nat \<Rightarrow> uint8 list" where
  "swap p s t = (let temp = p ! s in (p[s := p ! t])[t := temp])"

text \<open>
  \<open>permutepixels\<close>: \<open>i\<close> starts at \<open>imgsize - 1\<close> in \<open>uint32_t\<close> (so at
  \<open>2 ^ 32 - 1\<close> for an empty image) and runs down while \<open>i > 1\<close>.
\<close>

function permute_loop :: "'st librand \<Rightarrow> uint8 list \<Rightarrow> nat \<Rightarrow> 'st \<Rightarrow> uint8 list" where
  "permute_loop L p i st =
     (if i > 1
      then (let (j, st') = randint L i st in permute_loop L (swap p j i) (i - 1) st')
      else p)"
  by pat_completeness auto
termination
  by (relation "measure (\<lambda>(L, p, i, st). i)") auto

definition permutepixels :: "'st librand \<Rightarrow> Bitmap \<Rightarrow> uint16 \<Rightarrow> error + Bitmap" where
  "permutepixels L bp seed =
     (let imgsize = bmpimagesize bp;
          p = imgpixels bp;
          i0 = unat (imgsize - 1)
      in if i0 > 1 \<and> length p \<le> i0 then Inl OutOfBounds
         else Inr (bp\<lparr>imgpixels := permute_loop L p i0 (lib_srand L seed)\<rparr>))"

text \<open>
  \<open>unpermutepixels\<close>: the first loop stores \<open>permseq[i] = randint(i)\<close> for
  \<open>i = imgsize - 1, \<dots>, 1\<close>; the second swaps \<open>p[permseq[i]]\<close> and \<open>p[i]\<close> for
  \<open>i = 1, \<dots>, imgsize - 2\<close>.
\<close>

function draw_loop :: "'st librand \<Rightarrow> nat list \<Rightarrow> nat \<Rightarrow> 'st \<Rightarrow> nat list" where
  "draw_loop L permseq i st =
     (if i > 0
      then (let (j, st') = randint L i st in draw_loop L (permseq[i := j]) (i - 1) st')
      else permseq)"
  by pat_completeness auto
termination
  by (relation "measure (\<lambda>(L, permseq, i, st). i)") auto

function unswap_loop :: "uint8 list \<Rightarrow> nat list \<Rightarrow> nat \<Rightarrow> nat \<Rightarrow> uint8 list" where
  "unswap_loop p permseq i lim =
     (if i < lim
      then (let j = permseq ! i in unswap_loop (swap p j i) permseq (i + 1) lim)
      else p)"
  by pat_completeness auto
termination
  by (relation "measure (\<lambda>(p, permseq, i, lim). lim - i)") auto

definition unpermutepixels :: "'st librand \<Rightarrow> Bitmap \<Rightarrow> uint16 \<Rightarrow> error + Bitmap" where
  "unpermutepixels L bp seed =
     (let imgsize = bmpimagesize bp;
          p = imgpixels bp;
          i0 = unat (imgsize - 1)
      in if imgsize = 0 \<or> (1 < i0 \<and> length p < i0) then Inl OutOfBounds
         else (let permseq = draw_loop L (replicate (unat imgsize) 0) i0 (lib_srand L seed)
               in Inr (bp\<lparr>imgpixels := unswap_loop p permseq 1 i0\<rparr>)))"

declare permute_loop.simps [simp del] draw_loop.simps [simp del] unswap_loop.simps [simp del]

subsection \<open>Parameter checks of \<open>main\<close>\<close>

text \<open>
  The local variables of \<open>main\<close> after the argument loop. The options \<open>-k\<close>, \<open>-n\<close>
  and \<open>-s\<close> store a parsed \<open>long\<close> into a \<open>uint16_t\<close> when it is at most
  \<open>UINT16_MAX\<close> and call \<open>die\<close> otherwise (\<open>store_uint16\<close>).
\<close>

record mainvars =
  dflag :: bool
  rflag :: bool
  kflag :: bool
  wflag :: bool
  hflag :: bool
  nflag :: bool
  secretflag :: bool
  seed_var :: uint16
  k_var :: uint16
  n_var :: uint16
  width_var :: uint32
  height_var :: int32

definition UINT16_MAX :: int where "UINT16_MAX = 65535"

definition store_uint16 :: "string \<Rightarrow> int \<Rightarrow> error + uint16" where
  "store_uint16 msg l = (if l \<le> UINT16_MAX then Inr (of_int l) else Inl (Die msg))"

text \<open>What \<open>main\<close> goes on to do when no check fails.\<close>

datatype action =
    Distribute uint16 uint16 uint16
  | Recover uint32 int32 uint16
  | Nothing

text \<open>
  The checks of \<open>main\<close> after the argument loop, in the order of the source.
  \<open>filecount\<close> is the result of \<open>countfiles(dir)\<close>, an \<open>int\<close> stored into the
  \<open>uint16_t n\<close> when \<open>-n\<close> was not given.
\<close>

definition main_checks :: "mainvars \<Rightarrow> int \<Rightarrow> error + action" where
  "main_checks v filecount =
     (if \<not> (dflag v \<or> rflag v) \<or> \<not> secretflag v \<or> \<not> kflag v then Inl Usage
      else if (rflag v \<and> \<not> (wflag v \<and> hflag v)) \<or> width_var v = 0 \<or> height_var v = 0
      then Inl (Die ''specify a positive width and height with -w -h for the revealed image'')
      else (let n = (if \<not> nflag v then of_int filecount else n_var v);
                k = k_var v
            in if k > n \<or> k < 2 \<or> n < 2 then Inl (Die ''k and n must be: 2 <= k <= n'')
               else if dflag v \<and> rflag v
               then Inl (Die ''can't use -d and -r flags simultaneously'')
               else if dflag v then Inr (Distribute k n (seed_var v))
               else if rflag v then Inr (Recover (width_var v) (height_var v) k)
               else Inr Nothing))"


text \<open>
  The argument loop of \<open>main\<close>. An element of the command line is an option with
  its value, where the option takes one; for a numeric option the value is the
  \<open>long\<close> that \<open>xstrtol\<close> returned. \<open>ArgFatal\<close> stands for an element at which
  the loop ends the program: an option without its value (\<open>usage\<close>), a value
  that \<open>xstrtol\<close> refuses, or an unknown argument (\<open>die\<close>). The file name of
  \<open>--secret\<close> and the directory of \<open>--dir\<close> do not enter the checks and are not
  kept.
\<close>

datatype arg =
    ArgD
  | ArgR
  | ArgSecret
  | ArgK int
  | ArgW int
  | ArgH int
  | ArgS int
  | ArgN int
  | ArgDir
  | ArgFatal error

definition UINT32_MAX :: int where "UINT32_MAX = 4294967295"
definition INT32_MAX :: int where "INT32_MAX = 2147483647"
definition INT32_MIN :: int where "INT32_MIN = - 2147483648"

text \<open>The variables of \<open>main\<close> as they are initialised (\<open>DEFAULT_SEED\<close> is 691).\<close>

definition main_init :: mainvars where
  "main_init =
     \<lparr> dflag = False, rflag = False, kflag = False, wflag = False, hflag = False,
       nflag = False, secretflag = False, seed_var = 691, k_var = 0, n_var = 0,
       width_var = 0, height_var = 0 \<rparr>"

fun main_arg :: "arg \<Rightarrow> mainvars \<Rightarrow> error + mainvars" where
  "main_arg ArgD v = Inr (v\<lparr>dflag := True\<rparr>)"
| "main_arg ArgR v = Inr (v\<lparr>rflag := True\<rparr>)"
| "main_arg ArgSecret v = Inr (v\<lparr>secretflag := True\<rparr>)"
| "main_arg (ArgK l) v =
     (case store_uint16 ''k must be 2 <= k <= 65535'' l of
        Inl e \<Rightarrow> Inl e
      | Inr k \<Rightarrow> Inr (v\<lparr>kflag := True, k_var := k\<rparr>))"
| "main_arg (ArgW l) v =
     (if l \<le> UINT32_MAX then Inr (v\<lparr>wflag := True, width_var := of_int l\<rparr>)
      else Inl (Die ''width must be less or equal to 4294967295''))"
| "main_arg (ArgH l) v =
     (if INT32_MIN \<le> l \<and> l \<le> INT32_MAX then Inr (v\<lparr>hflag := True, height_var := of_int l\<rparr>)
      else Inl (Die ''height must be -2147483648 <= height <= 2147483647''))"
| "main_arg (ArgS l) v =
     (case store_uint16 ''seed must be less or equal to 65535'' l of
        Inl e \<Rightarrow> Inl e
      | Inr s \<Rightarrow> Inr (v\<lparr>seed_var := s\<rparr>))"
| "main_arg (ArgN l) v =
     (case store_uint16 ''n must be 2 <= n <= 65535'' l of
        Inl e \<Rightarrow> Inl e
      | Inr n \<Rightarrow> Inr (v\<lparr>nflag := True, n_var := n\<rparr>))"
| "main_arg ArgDir v = Inr v"
| "main_arg (ArgFatal e) v = Inl e"

fun main_loop :: "arg list \<Rightarrow> mainvars \<Rightarrow> error + mainvars" where
  "main_loop [] v = Inr v"
| "main_loop (a # as) v =
     (case main_arg a v of
        Inl e \<Rightarrow> Inl e
      | Inr v' \<Rightarrow> main_loop as v')"

text \<open>
  \<open>main\<close>: the argument loop, then the checks; the result is the call that
  \<open>main\<close> goes on to make, or the fatal error.
\<close>

definition main :: "arg list \<Rightarrow> int \<Rightarrow> error + action" where
  "main args filecount =
     (case main_loop args main_init of
        Inl e \<Rightarrow> Inl e
      | Inr v \<Rightarrow> main_checks v filecount)"

text \<open>
  The \<open>k\<close> and \<open>n\<close> that a command line gives: the value of its last \<open>-k\<close>
  option, and the value of its last \<open>-n\<close> option or, without \<open>-n\<close>, the number
  of files in the directory.
\<close>

fun last_k :: "arg list \<Rightarrow> int option" where
  "last_k [] = None"
| "last_k (a # as) =
     (case last_k as of
        Some l \<Rightarrow> Some l
      | None \<Rightarrow> (case a of ArgK l \<Rightarrow> Some l | _ \<Rightarrow> None))"

fun last_n :: "arg list \<Rightarrow> int option" where
  "last_n [] = None"
| "last_n (a # as) =
     (case last_n as of
        Some l \<Rightarrow> Some l
      | None \<Rightarrow> (case a of ArgN l \<Rightarrow> Some l | _ \<Rightarrow> None))"

definition parsed_n :: "arg list \<Rightarrow> int \<Rightarrow> int" where
  "parsed_n args filecount = (case last_n args of Some l \<Rightarrow> l | None \<Rightarrow> filecount)"
subsection \<open>Polynomial evaluation\<close>

text \<open>
  \<open>generatepixel\<close> accumulates \<open>ret += coeff[i] * pow(value, i)\<close> with \<open>ret\<close> an
  \<open>intmax_t\<close> (64 bits) and the right-hand side a \<open>double\<close>: \<open>ret\<close> is converted
  to \<open>double\<close>, the product and the sum are formed in \<open>double\<close>, and the sum is
  converted back. \<open>accumulate ret c p\<close> is one such step for the coefficient
  \<open>c\<close> and the exact power \<open>p = value ^ i\<close>, with \<open>0 \<le> ret < 2 ^ 53\<close>:
  \<^item> while the new sum is below \<open>2 ^ 53\<close> every intermediate value is an integer
    that \<open>double\<close> represents exactly, and the step adds \<open>c * p\<close>;
  \<^item> a zero coefficient contributes \<open>0 * pow(value, i) = 0\<close> as long as the power
    is finite (below \<open>2 ^ 1023\<close>);
  \<^item> when \<open>c \<ge> 1\<close> and \<open>p \<ge> 2 ^ 63\<close>, the power, the product and the sum are all at
    least \<open>2 ^ 63\<close> (or infinite) in \<open>double\<close>, more than \<open>INTMAX_MAX\<close>: the
    conversion back to \<open>intmax_t\<close> is undefined (C11 6.3.1.4);
  \<^item> in between the result depends on how \<open>pow\<close> and the operations round, and
    the model determines no value (\<open>Inexact\<close>).
\<close>

definition accumulate :: "int \<Rightarrow> int \<Rightarrow> int \<Rightarrow> error + int" where
  "accumulate ret c p =
     (if ret + c * p < 2 ^ 53 \<and> (c = 0 \<longrightarrow> p < 2 ^ 1023) then Inr (ret + c * p)
      else if c \<noteq> 0 \<and> 2 ^ 63 \<le> p then Inl ConversionUndefined
      else Inl Inexact)"

text \<open>
  \<open>coeff\<close> is the memory from the pointer \<open>coeff\<close> to the end of its pixel
  array; reading \<open>coeff[i]\<close> beyond it is \<open>OutOfBounds\<close>.
\<close>

function generatepixel_loop :: "uint8 list \<Rightarrow> nat \<Rightarrow> nat \<Rightarrow> nat \<Rightarrow> int \<Rightarrow> error + int" where
  "generatepixel_loop coeff degree val i ret =
     (if i \<le> degree
      then (if length coeff \<le> i then Inl OutOfBounds
            else (case accumulate ret (uint (coeff ! i)) (int val ^ i) of
                    Inl e \<Rightarrow> Inl e
                  | Inr ret' \<Rightarrow> generatepixel_loop coeff degree val (i + 1) ret'))
      else Inr ret)"
  by pat_completeness auto
termination
  by (relation "measure (\<lambda>(coeff, degree, val, i, ret). degree + 1 - i)") auto

definition generatepixel :: "uint8 list \<Rightarrow> uint16 \<Rightarrow> uint16 \<Rightarrow> error + uint8" where
  "generatepixel coeff degree val =
     (case generatepixel_loop coeff (unat degree) (unat val) 0 0 of
        Inl e \<Rightarrow> Inl e
      | Inr ret \<Rightarrow> Inr (of_int (ret smod PRIME)))"

subsection \<open>Forming the shadows\<close>

text \<open>
  The inner loop of \<open>formshadows\<close>: pixel \<open>j\<close> of every shadow \<open>i < n\<close> from the
  block of coefficients at \<open>coeff\<close>. \<open>k-1\<close> and \<open>i+1\<close> are passed as \<open>uint16_t\<close>.
\<close>

function formshadows_pixel ::
    "Bitmap list \<Rightarrow> uint8 list \<Rightarrow> uint16 \<Rightarrow> nat \<Rightarrow> nat \<Rightarrow> nat \<Rightarrow> error + Bitmap list" where
  "formshadows_pixel shadows coeff k j i n =
     (if i < n
      then (case generatepixel coeff (k - 1) (of_nat (i + 1)) of
              Inl e \<Rightarrow> Inl e
            | Inr px \<Rightarrow>
                (if length (imgpixels (shadows ! i)) \<le> j then Inl OutOfBounds
                 else formshadows_pixel
                        (shadows[i := (shadows ! i)\<lparr>imgpixels := (imgpixels (shadows ! i))[j := px]\<rparr>])
                        coeff k j (i + 1) n))
      else Inr shadows)"
  by pat_completeness auto
termination
  by (relation "measure (\<lambda>(shadows, coeff, k, j, i, n). n - i)") auto

text \<open>
  The outer loop \<open>for (j = 0; j*k < pixelarraysize; j++)\<close>. It is entered only
  after \<open>pixelarraysize/k\<close> has been computed, so \<open>k \<noteq> 0\<close> there.
\<close>

function formshadows_loop ::
    "Bitmap list \<Rightarrow> uint8 list \<Rightarrow> uint16 \<Rightarrow> nat \<Rightarrow> nat \<Rightarrow> nat \<Rightarrow> error + Bitmap list" where
  "formshadows_loop shadows px k j n pixelarraysz =
     (if k \<noteq> 0 \<and> j * unat k < pixelarraysz
      then (case formshadows_pixel shadows (drop (j * unat k) px) k j 0 n of
              Inl e \<Rightarrow> Inl e
            | Inr shadows' \<Rightarrow> formshadows_loop shadows' px k (j + 1) n pixelarraysz)
      else Inr shadows)"
  by pat_completeness auto
termination
proof (relation "measure (\<lambda>(shadows, px, k, j, n, pixelarraysz). pixelarraysz - j * unat k)")
  show "wf (measure (\<lambda>(shadows, px, k, j, n, pixelarraysz). pixelarraysz - j * unat k))"
    by simp
next
  fix shadows :: "Bitmap list" and px :: "uint8 list" and k :: uint16
    and j n pixelarraysz :: nat and x2 :: "Bitmap list"
  assume a: "k \<noteq> 0 \<and> j * unat k < pixelarraysz"
  then have "0 < unat k" by (simp add: unat_gt_0)
  moreover have "(j + 1) * unat k = j * unat k + unat k" by simp
  ultimately have "pixelarraysz - (j + 1) * unat k < pixelarraysz - j * unat k"
    using a by linarith
  then show "((x2, px, k, j + 1, n, pixelarraysz), shadows, px, k, j, n, pixelarraysz)
               \<in> measure (\<lambda>(shadows, px, k, j, n, pixelarraysz). pixelarraysz - j * unat k)"
    by simp
qed

text \<open>
  \<open>formshadows\<close> never assigns its local \<open>width\<close> and \<open>height\<close> itself: it passes
  them to \<open>findclosestpair\<close> unassigned (\<open>None\<close>) and allocates the shadows with
  whatever they hold afterwards.
\<close>

definition formshadows :: "Bitmap \<Rightarrow> uint16 \<Rightarrow> uint16 \<Rightarrow> uint16 \<Rightarrow> error + Bitmap list" where
  "formshadows bp k n seed =
     (let pixelarraysz = bmpimagesize bp
      in if k = 0 then Inl DivisionByZero
         else (case findclosestpair (pixelarraysz div ucast k) None of
                 None \<Rightarrow> Inl Uninitialised
               | Some (w, h) \<Rightarrow>
                   (let shadows = map (\<lambda>i. newshadow w h seed (of_nat (i + 1))) [0..<unat n]
                    in formshadows_loop shadows (imgpixels bp) k 0 (unat n) (unat pixelarraysz))))"

subsection \<open>Gauss-Jordan elimination modulo 251\<close>

text \<open>
  The matrix \<open>int **mat\<close> is a list of rows. The arithmetic of \<open>findcoefficients\<close>
  is \<open>int\<close> arithmetic: a result outside 32 bits is \<open>SignedOverflow\<close>, and an
  index into \<open>modinv\<close> outside \<open>0..250\<close> is \<open>OutOfBounds\<close>. The matrix has \<open>k\<close>
  rows of \<open>k + 1\<close> entries, as \<open>revealsecret\<close> allocates it, and \<open>k \<ge> 1\<close>.
\<close>

definition INT_MAX :: int where "INT_MAX = 2147483647"
definition INT_MIN :: int where "INT_MIN = - 2147483648"

definition c_int :: "int \<Rightarrow> error + int" where
  "c_int x = (if INT_MIN \<le> x \<and> x \<le> INT_MAX then Inr x else Inl SignedOverflow)"

definition modinv_at :: "int \<Rightarrow> error + int" where
  "modinv_at x = (if 0 \<le> x \<and> x < PRIME then Inr (uint (modinv ! nat x)) else Inl OutOfBounds)"

text \<open>\<open>a = mat[i][j] * modinv[mat[i-1][j]]\<close>\<close>

definition elim_factor :: "int \<Rightarrow> int \<Rightarrow> error + int" where
  "elim_factor x y =
     (case modinv_at y of Inl e \<Rightarrow> Inl e | Inr v \<Rightarrow> c_int (x * v))"

text \<open>\<open>mod(mat[i][t] - ((mat[i-1][t] * a) % PRIME), PRIME)\<close>\<close>

definition elim_entry :: "int \<Rightarrow> int \<Rightarrow> int \<Rightarrow> error + int" where
  "elim_entry x y a =
     (case c_int (y * a) of
        Inl e \<Rightarrow> Inl e
      | Inr pr \<Rightarrow> (case c_int (x - (pr smod PRIME)) of
                    Inl e \<Rightarrow> Inl e
                  | Inr temp \<Rightarrow> Inr (mod_util temp PRIME)))"

text \<open>\<open>(x * modinv[d]) % PRIME\<close>\<close>

definition scale_entry :: "int \<Rightarrow> int \<Rightarrow> error + int" where
  "scale_entry x d =
     (case modinv_at d of
        Inl e \<Rightarrow> Inl e
      | Inr v \<Rightarrow> (case c_int (x * v) of Inl e \<Rightarrow> Inl e | Inr pr \<Rightarrow> Inr (pr smod PRIME)))"

type_synonym matrix = "int list list"

definition mat_set :: "matrix \<Rightarrow> nat \<Rightarrow> nat \<Rightarrow> int \<Rightarrow> matrix" where
  "mat_set mat i t v = mat[i := (mat ! i)[t := v]]"

text \<open>The loop over \<open>t = j, \<dots>, k\<close> of the first phase.\<close>

function echelon_cols :: "matrix \<Rightarrow> nat \<Rightarrow> int \<Rightarrow> nat \<Rightarrow> nat \<Rightarrow> error + matrix" where
  "echelon_cols mat i a t k =
     (if t < k + 1
      then (case elim_entry (mat ! i ! t) (mat ! (i - 1) ! t) a of
              Inl e \<Rightarrow> Inl e
            | Inr v \<Rightarrow> echelon_cols (mat_set mat i t v) i a (t + 1) k)
      else Inr mat)"
  by pat_completeness auto
termination
  by (relation "measure (\<lambda>(mat, i, a, t, k). k + 1 - t)") auto

text \<open>The loop over \<open>i = k-1, \<dots>, j+1\<close> of the first phase.\<close>

function echelon_rows :: "matrix \<Rightarrow> nat \<Rightarrow> nat \<Rightarrow> nat \<Rightarrow> error + matrix" where
  "echelon_rows mat j i k =
     (if i > j
      then (case elim_factor (mat ! i ! j) (mat ! (i - 1) ! j) of
              Inl e \<Rightarrow> Inl e
            | Inr a \<Rightarrow> (case echelon_cols mat i a j k of
                          Inl e \<Rightarrow> Inl e
                        | Inr mat' \<Rightarrow> echelon_rows mat' j (i - 1) k))
      else Inr mat)"
  by pat_completeness auto
termination
  by (relation "measure (\<lambda>(mat, j, i, k). i)") auto

text \<open>The loop over \<open>j = 0, \<dots>, k-2\<close>: "take matrix to echelon form".\<close>

function echelon :: "matrix \<Rightarrow> nat \<Rightarrow> nat \<Rightarrow> error + matrix" where
  "echelon mat j k =
     (if j < k - 1
      then (case echelon_rows mat j (k - 1) k of
              Inl e \<Rightarrow> Inl e
            | Inr mat' \<Rightarrow> echelon mat' (j + 1) k)
      else Inr mat)"
  by pat_completeness auto
termination
  by (relation "measure (\<lambda>(mat, j, k). k - 1 - j)") auto

text \<open>
  The loop \<open>for (int t = i-1; t >= 0; t--)\<close> of the second phase; \<open>t\<close> is an
  \<open>int\<close>.
\<close>

function reduce_rows :: "matrix \<Rightarrow> nat \<Rightarrow> int \<Rightarrow> nat \<Rightarrow> error + matrix" where
  "reduce_rows mat i t k =
     (if t \<ge> 0
      then (case c_int (mat ! i ! k * mat ! nat t ! i) of
              Inl e \<Rightarrow> Inl e
            | Inr pr \<Rightarrow>
                (case c_int (mat ! nat t ! k - (pr smod PRIME)) of
                   Inl e \<Rightarrow> Inl e
                 | Inr temp \<Rightarrow>
                     reduce_rows (mat_set (mat_set mat (nat t) k (mod_util temp PRIME)) (nat t) i 0)
                       i (t - 1) k))
      else Inr mat)"
  by pat_completeness auto
termination
  by (relation "measure (\<lambda>(mat, i, t, k). nat (t + 1))") auto

text \<open>The loop over \<open>i = k-1, \<dots>, 1\<close>: "take matrix to reduced row echelon form".\<close>

function reduce :: "matrix \<Rightarrow> nat \<Rightarrow> nat \<Rightarrow> error + matrix" where
  "reduce mat i k =
     (if i > 0
      then (case scale_entry (mat ! i ! k) (mat ! i ! i) of
              Inl e \<Rightarrow> Inl e
            | Inr v \<Rightarrow>
                (let mat1 = mat_set mat i k v
                 in (case scale_entry (mat1 ! i ! i) (mat1 ! i ! i) of
                       Inl e \<Rightarrow> Inl e
                     | Inr d \<Rightarrow>
                         (case reduce_rows (mat_set mat1 i i d) i (int i - 1) k of
                            Inl e \<Rightarrow> Inl e
                          | Inr mat' \<Rightarrow> reduce mat' (i - 1) k))))
      else Inr mat)"
  by pat_completeness auto
termination
  by (relation "measure (\<lambda>(mat, i, k). i)") auto

definition findcoefficients :: "matrix \<Rightarrow> uint16 \<Rightarrow> error + matrix" where
  "findcoefficients mat k =
     (case echelon mat 0 (unat k) of
        Inl e \<Rightarrow> Inl e
      | Inr mat' \<Rightarrow> reduce mat' (unat k - 1) (unat k))"

declare generatepixel_loop.simps [simp del] formshadows_pixel.simps [simp del]
  formshadows_loop.simps [simp del] echelon_cols.simps [simp del] echelon_rows.simps [simp del]
  echelon.simps [simp del] reduce_rows.simps [simp del] reduce.simps [simp del]

subsection \<open>Revealing the secret\<close>

text \<open>
  Row \<open>j\<close> of the matrix of \<open>revealsecret\<close>: \<open>mat[j][0] = 1\<close>, then
  \<open>mat[j][t] = value; value *= unused2\<close> for \<open>t = 1, \<dots>, k-1\<close> in \<open>int\<close>
  arithmetic (the powers are not reduced modulo 251), and \<open>mat[j][k]\<close> is pixel
  \<open>i\<close> of shadow \<open>j\<close>.
\<close>

function powers_row :: "int list \<Rightarrow> int \<Rightarrow> int \<Rightarrow> nat \<Rightarrow> nat \<Rightarrow> error + int list" where
  "powers_row row v x t k =
     (if t < k
      then (case c_int (v * x) of
              Inl e \<Rightarrow> Inl e
            | Inr v' \<Rightarrow> powers_row (row[t := v]) v' x (t + 1) k)
      else Inr row)"
  by pat_completeness auto
termination
  by (relation "measure (\<lambda>(row, v, x, t, k). k - t)") auto

definition matrix_row :: "Bitmap \<Rightarrow> int list \<Rightarrow> nat \<Rightarrow> nat \<Rightarrow> error + int list" where
  "matrix_row sp row i k =
     (let x = uint (unused2 (bmpheader sp))
      in (case powers_row (row[0 := 1]) x x 1 k of
            Inl e \<Rightarrow> Inl e
          | Inr row' \<Rightarrow>
              (if length (imgpixels sp) \<le> i then Inl OutOfBounds
               else Inr (row'[k := uint (imgpixels sp ! i)]))))"

function build_matrix :: "Bitmap list \<Rightarrow> matrix \<Rightarrow> nat \<Rightarrow> nat \<Rightarrow> nat \<Rightarrow> error + matrix" where
  "build_matrix shadows mat i j k =
     (if j < k
      then (if length shadows \<le> j then Inl OutOfBounds
            else (case matrix_row (shadows ! j) (mat ! j) i k of
                    Inl e \<Rightarrow> Inl e
                  | Inr row \<Rightarrow> build_matrix shadows (mat[j := row]) i (j + 1) k))
      else Inr mat)"
  by pat_completeness auto
termination
  by (relation "measure (\<lambda>(shadows, mat, i, j, k). k - j)") auto

text \<open>\<open>for (j = i*k; j < (i+1)*k; j++) bmp->imgpixels[j] = mat[j % k][k]\<close>\<close>

function write_block :: "uint8 list \<Rightarrow> matrix \<Rightarrow> nat \<Rightarrow> nat \<Rightarrow> nat \<Rightarrow> error + uint8 list" where
  "write_block px mat j lim k =
     (if j < lim
      then (if length px \<le> j then Inl OutOfBounds
            else write_block (px[j := of_int (mat ! (j mod k) ! k)]) mat (j + 1) lim k)
      else Inr px)"
  by pat_completeness auto
termination
  by (relation "measure (\<lambda>(px, mat, j, lim, k). lim - j)") auto

function revealsecret_loop ::
    "Bitmap list \<Rightarrow> uint8 list \<Rightarrow> matrix \<Rightarrow> nat \<Rightarrow> nat \<Rightarrow> uint16 \<Rightarrow> error + uint8 list" where
  "revealsecret_loop shadows px mat i pixels k =
     (if i < pixels
      then (case build_matrix shadows mat i 0 (unat k) of
              Inl e \<Rightarrow> Inl e
            | Inr m \<Rightarrow>
                (case findcoefficients m k of
                   Inl e \<Rightarrow> Inl e
                 | Inr m' \<Rightarrow>
                     (case write_block px m' (i * unat k) ((i + 1) * unat k) (unat k) of
                        Inl e \<Rightarrow> Inl e
                      | Inr px' \<Rightarrow> revealsecret_loop shadows px' m' (i + 1) pixels k)))
      else Inr px)"
  by pat_completeness auto
termination
  by (relation "measure (\<lambda>(shadows, px, mat, i, pixels, k). pixels - i)") auto

text \<open>
  \<open>revealsecret\<close> takes the number of blocks from the first shadow's
  \<open>pixelarraysize\<close> and allocates the result with \<open>newbitmap(width, height)\<close>.
  The call \<open>unpermutepixels\<close> at its end is commented out in the source.
\<close>

definition revealsecret :: "Bitmap list \<Rightarrow> uint32 \<Rightarrow> int32 \<Rightarrow> uint16 \<Rightarrow> error + Bitmap" where
  "revealsecret shadows w h k =
     (if shadows = [] then Inl OutOfBounds
      else (let pixels = unat (pixelarraysize (dibheader (shadows ! 0)));
                bmp = newbitmap w h (unused1 (bmpheader (shadows ! 0)));
                mat = replicate (unat k) (replicate (unat k + 1) 0)
            in (case revealsecret_loop shadows (imgpixels bmp) mat 0 pixels k of
                  Inl e \<Rightarrow> Inl e
                | Inr px \<Rightarrow> Inr (bmp\<lparr>imgpixels := px\<rparr>))))"

declare powers_row.simps [simp del] build_matrix.simps [simp del] write_block.simps [simp del]
  revealsecret_loop.simps [simp del]

subsection \<open>Notions for the correctness of the elimination\<close>

text \<open>
  The remaining definitions belong to the statements and proofs about
  \<open>findcoefficients\<close>, not to the program: the augmented Vandermonde matrix of
  sample points, the inverse read from the table, well-formed matrices,
  solutions of the linear system modulo 251, and the closed form of the
  matrix entries during the first phase.
\<close>

definition vandermonde :: "int list \<Rightarrow> int list \<Rightarrow> matrix" where
  "vandermonde xs ys =
     map (\<lambda>j. map (\<lambda>t. (xs ! j) ^ t mod 251) [0..<length xs] @ [ys ! j]) [0..<length xs]"

definition inv251 :: "int \<Rightarrow> int" where
  "inv251 v = uint (modinv ! nat v)"

definition in_range :: "int \<Rightarrow> bool" where
  "in_range v \<longleftrightarrow> 0 \<le> v \<and> v \<le> 250"

definition wfmat :: "matrix \<Rightarrow> nat \<Rightarrow> bool" where
  "wfmat M n \<longleftrightarrow>
     length M = n \<and> (\<forall>r<n. length (M ! r) = n + 1 \<and> (\<forall>c\<le>n. in_range (M ! r ! c)))"

text \<open>\<open>b\<close> solves the system of the augmented matrix \<open>M\<close> modulo 251.\<close>

definition sat :: "nat \<Rightarrow> matrix \<Rightarrow> (nat \<Rightarrow> int) \<Rightarrow> bool" where
  "sat n M b \<longleftrightarrow> (\<forall>r<n. (\<Sum>c<n. M ! r ! c * b c) mod 251 = M ! r ! n mod 251)"

text \<open>
  Complete homogeneous symmetric polynomials \<open>hsym d xs\<close> of degree \<open>d\<close> in the
  values \<open>xs\<close>, and the products \<open>wprod xs r m = (x\<^sub>r - x\<^sub>r\<^sub>-\<^sub>1) \<cdots> (x\<^sub>r - x\<^sub>r\<^sub>-\<^sub>m)\<close>.
  After \<open>m\<close> elimination steps, entry \<open>c\<close> of row \<open>r\<close> is \<open>nev xs m r c\<close> modulo 251.
\<close>

fun hsym :: "nat \<Rightarrow> int list \<Rightarrow> int" where
  "hsym 0 xs = 1"
| "hsym (Suc d) [] = 0"
| "hsym (Suc d) (x # xs) = hsym (Suc d) xs + x * hsym d (x # xs)"

fun wprod :: "int list \<Rightarrow> nat \<Rightarrow> nat \<Rightarrow> int" where
  "wprod xs r 0 = 1"
| "wprod xs r (Suc m) = wprod xs r m * (xs ! r - xs ! (r - Suc m))"

definition nev :: "int list \<Rightarrow> nat \<Rightarrow> nat \<Rightarrow> nat \<Rightarrow> int" where
  "nev xs m r c =
     (if c < m then 0 else wprod xs r m * hsym (c - m) (take (Suc m) (drop (r - m) xs)))"

text \<open>
  While column \<open>j\<close> is eliminated and the rows below \<open>i\<close> are done, row \<open>r\<close> has
  had \<open>lvl j i r\<close> elimination steps.
\<close>

definition lvl :: "nat \<Rightarrow> nat \<Rightarrow> nat \<Rightarrow> nat" where
  "lvl j i r = (if i < r then min r (Suc j) else min r j)"

definition echelon_inv :: "int list \<Rightarrow> nat \<Rightarrow> nat \<Rightarrow> nat \<Rightarrow> matrix \<Rightarrow> bool" where
  "echelon_inv xs n j i M \<longleftrightarrow>
     wfmat M n \<and> (\<forall>r<n. \<forall>c<n. M ! r ! c = nev xs (lvl j i r) r c mod 251)"

text \<open>
  During the second phase, with the rows above \<open>i0\<close> done: the matrix is upper
  triangular, the rows above \<open>i0\<close> are unit rows and their columns are cleared.
\<close>

definition reduce_inv :: "nat \<Rightarrow> nat \<Rightarrow> matrix \<Rightarrow> bool" where
  "reduce_inv n i0 M \<longleftrightarrow>
     wfmat M n \<and>
     (\<forall>r<n. \<forall>c<n. c < r \<longrightarrow> M ! r ! c = 0) \<and>
     (\<forall>r<n. r \<le> i0 \<longrightarrow> M ! r ! r \<noteq> 0) \<and>
     M ! 0 ! 0 = 1 \<and>
     (\<forall>r<n. \<forall>c<n. i0 < r \<longrightarrow> M ! r ! c = (if c = r then 1 else 0)) \<and>
     (\<forall>r<n. \<forall>c<n. r \<le> i0 \<longrightarrow> i0 < c \<longrightarrow> M ! r ! c = 0)"

subsection \<open>Concrete bitmaps for the examples\<close>

definition carrier0 :: Bitmap where "carrier0 = newbitmaphelper 8 1 0 0 8"
definition shadow0 :: Bitmap where "shadow0 = (newshadow 1 1 0 1)\<lparr>imgpixels := [0xB4]\<rparr>"

definition carrier1 :: Bitmap where "carrier1 = newbitmaphelper 72 1 0 0 72"
definition shadow1 :: Bitmap where
  "shadow1 = (newshadow 3 3 691 1)\<lparr>imgpixels := [30, 70, 0, 250, 255, 128, 1, 2, 3]\<rparr>"

text \<open>
  Two carriers of 16 and 32 zero pixel bytes, for the shadow \<open>[30, 70]\<close> of the
  4-pixel secret below (\<open>shadow_a\<close>).
\<close>

definition carrier16 :: Bitmap where "carrier16 = newbitmaphelper 16 1 0 0 16"
definition carrier32 :: Bitmap where "carrier32 = newbitmaphelper 32 1 0 0 32"

definition buffer10 :: Bitmap where
  "buffer10 = (newbitmaphelper 10 1 691 0 10)\<lparr>imgpixels := [0, 1, 2, 3, 4, 5, 6, 7, 8, 9]\<rparr>"

text \<open>
  The variables of \<open>main\<close> after \<open>-d --secret s.bmp -k 2 -n 251 -w 4 -h 4\<close>, and
  after the same command line with \<open>-k 1\<close>.
\<close>

definition vars_n251 :: mainvars where
  "vars_n251 =
     \<lparr> dflag = True, rflag = False, kflag = True, wflag = True, hflag = True,
       nflag = True, secretflag = True, seed_var = 691, k_var = 2, n_var = 251,
       width_var = 4, height_var = 4 \<rparr>"

definition vars_k1 :: mainvars where
  "vars_k1 = vars_n251\<lparr>k_var := 1\<rparr>"

text \<open>
  A 576 x 1 secret (576 pixel bytes, all at most 250) whose first block of
  64 coefficients is \<open>0, \<dots>, 0, 1\<close>; two hand-made shadows of the 4-pixel secret
  \<open>[10, 20, 30, 40]\<close> for \<open>k = 2\<close>; and an 18-pixel secret.
\<close>

definition secret64 :: Bitmap where
  "secret64 =
     (newbitmaphelper 576 1 0 0 576)\<lparr>imgpixels := replicate 63 0 @ [1] @ replicate 512 0\<rparr>"

definition shadow_a :: Bitmap where
  "shadow_a = (newshadow 2 1 691 1)\<lparr>imgpixels := [30, 70]\<rparr>"

definition shadow_b :: Bitmap where
  "shadow_b = (newshadow 2 1 691 2)\<lparr>imgpixels := [50, 110]\<rparr>"

section \<open>C remainders\<close>

lemma smod_nonneg: "0 \<le> a \<Longrightarrow> 0 < b \<Longrightarrow> (a::int) smod b = a mod b"
  by (cases "a = 0") (simp_all add: smod_int_alt_def sgn_if)

lemma mod_util_eq: "0 < b \<Longrightarrow> mod_util a b = a mod b"
proof (cases "0 \<le> a")
  case True
  assume b: "0 < b"
  with True have "a smod b = a mod b" by (rule smod_nonneg)
  moreover have "0 \<le> a mod b" using b by simp
  ultimately show ?thesis by (simp add: mod_util_def Let_def)
next
  case False
  assume b: "0 < b"
  from False have s: "a smod b = - ((- a) mod b)"
    using b by (simp add: smod_int_alt_def sgn_if)
  show ?thesis
  proof (cases "(- a) mod b = 0")
    case True
    then have "a mod b = 0" by (metis dvd_minus_iff mod_eq_0_iff_dvd)
    with True s show ?thesis by (simp add: mod_util_def Let_def)
  next
    case False
    have "0 \<le> (- a) mod b" using b by simp
    with False have pos: "0 < (- a) mod b" by simp
    have "a mod b = b - (- a) mod b"
      using False b by (metis minus_minus zmod_zminus1_eq_if)
    with pos s show ?thesis by (simp add: mod_util_def Let_def)
  qed
qed

section \<open>The inverse table\<close>

lemma length_modinv: "length modinv = 251"
  by (simp add: modinv_def)

lemma modinv_all:
  "list_all (\<lambda>a. (int a * uint (modinv ! a)) mod 251 = 1) [1..<251]"
  by code_simp

text \<open>
  C4. The table \<open>modinv\<close> has 251 entries, its entry 0 is 0, and for every
  \<open>a\<close> from 1 to 250 the product \<open>a * modinv[a]\<close> is 1 modulo 251; its entries
  at 126, 84 and 250 are 2, 3 and 250.
\<close>

theorem modinv_inverse_table:
  "length modinv = 251 \<and> modinv ! 0 = 0 \<and>
   (\<forall>a\<in>{1..250}. (int a * uint (modinv ! a)) mod 251 = 1) \<and>
   modinv ! 126 = 2 \<and> modinv ! 84 = 3 \<and> modinv ! 250 = 250"
proof -
  have all: "\<forall>a\<in>{1..250}. (int a * uint (modinv ! a)) mod 251 = 1"
  proof
    fix a :: nat
    assume "a \<in> {1..250}"
    then have "a \<in> set [1..<251]" by auto
    with modinv_all show "(int a * uint (modinv ! a)) mod 251 = 1"
      unfolding list_all_iff by blast
  qed
  have "modinv ! 0 = 0" "modinv ! 126 = 2" "modinv ! 84 = 3" "modinv ! 250 = 250"
    by (simp_all add: modinv_def)
  with all length_modinv show ?thesis by blast
qed

theorem modinv_inverse_table_witness:
  "(7::nat) \<in> {1..250} \<and> (int 7 * uint (modinv ! 7)) mod 251 = 1"
proof -
  have m: "(7::nat) \<in> {1..250}" by simp
  from modinv_inverse_table
  have "\<forall>a\<in>{1..250}. (int a * uint (modinv ! a)) mod 251 = 1" by blast
  from bspec [OF this m] m show ?thesis by simp
qed

section \<open>Shadow dimensions\<close>

lemma floor_sqrt_correct: "floor_sqrt n * floor_sqrt n \<le> n \<and> n < (floor_sqrt n + 1) * (floor_sqrt n + 1)"
proof (induction n rule: floor_sqrt.induct)
  case (1 n)
  show ?case
  proof (cases "n < 2")
    case True
    then show ?thesis by (subst (1 2 3 4) floor_sqrt.simps) auto
  next
    case False
    define s where "s = floor_sqrt (n div 4)"
    from 1 False have IH: "s * s \<le> n div 4" "n div 4 < (s + 1) * (s + 1)"
      by (simp_all add: s_def)
    have fs: "floor_sqrt n = (if (2 * s + 1) * (2 * s + 1) \<le> n then 2 * s + 1 else 2 * s)"
      using False by (subst floor_sqrt.simps) (simp add: s_def Let_def)
    from IH(1) have a: "(2 * s) * (2 * s) \<le> n" by (simp add: algebra_simps) 
    from IH(2) have "n div 4 + 1 \<le> (s + 1) * (s + 1)" by simp
    then have "4 * (n div 4) + 4 \<le> 4 * ((s + 1) * (s + 1))" by simp
    then have b: "n < (2 * s + 2) * (2 * s + 2)" by (simp add: algebra_simps)
    show ?thesis using a b by (simp add: fs)
  qed
qed


text \<open>
  What the loop does store: the largest divisor of \<open>x\<close> among \<open>3, \<dots>, y\<close> and its
  cofactor. When there is none, nothing is stored.
\<close>

lemma findclosestpair_loop_Some:
  "findclosestpair_loop x y = Some (w, h) \<Longrightarrow>
   2 < w \<and> w \<le> y \<and> x mod w = 0 \<and> h = x div w \<and> w * h = x \<and>
   (\<forall>d. w < d \<and> d \<le> y \<longrightarrow> x mod d \<noteq> 0)"
proof (induction x y rule: findclosestpair_loop.induct)
  case (1 x y)
  show ?case
  proof (cases "y > 2")
    case False
    with 1(2) show ?thesis by (subst (asm) findclosestpair_loop.simps) simp
  next
    case True
    show ?thesis
    proof (cases "x mod y = 0")
      case True
      with \<open>y > 2\<close> 1(2) have "w = y" "h = x div y"
        by (subst (asm) findclosestpair_loop.simps, simp)+
      with True \<open>y > 2\<close> show ?thesis by auto
    next
      case False
      with \<open>y > 2\<close> 1(2) have "findclosestpair_loop x (y - 1) = Some (w, h)"
        by (subst (asm) findclosestpair_loop.simps) simp
      from 1(1) [OF \<open>y > 2\<close> False this]
      have IH: "2 < w \<and> w \<le> y - 1 \<and> x mod w = 0 \<and> h = x div w \<and> w * h = x \<and>
                (\<forall>d. w < d \<and> d \<le> y - 1 \<longrightarrow> x mod d \<noteq> 0)" .
      have "x mod d \<noteq> 0" if "w < d \<and> d \<le> y" for d
      proof (cases "d = y")
        case True
        with False show ?thesis by simp
      next
        case False
        with that have "w < d \<and> d \<le> y - 1" by linarith
        with IH show ?thesis by blast
      qed
      with IH show ?thesis by auto
    qed
  qed
qed

lemma findclosestpair_loop_None:
  "findclosestpair_loop x y = None \<Longrightarrow> (\<forall>d. 2 < d \<and> d \<le> y \<longrightarrow> x mod d \<noteq> 0)"
proof (induction x y rule: findclosestpair_loop.induct)
  case (1 x y)
  show ?case
  proof (cases "y > 2")
    case False
    then show ?thesis by simp
  next
    case True
    from True 1(2) have nd: "x mod y \<noteq> 0"
      by (subst (asm) findclosestpair_loop.simps) (simp split: if_splits)
    with True 1(2) have "findclosestpair_loop x (y - 1) = None"
      by (subst (asm) findclosestpair_loop.simps) simp
    from 1(1) [OF True nd this] have IH: "\<forall>d. 2 < d \<and> d \<le> y - 1 \<longrightarrow> x mod d \<noteq> 0" .
    show ?thesis
    proof (intro allI impI)
      fix d assume d: "2 < d \<and> d \<le> y"
      show "x mod d \<noteq> 0"
      proof (cases "d = y")
        case True
        with nd show ?thesis by simp
      next
        case False
        with d have "2 < d \<and> d \<le> y - 1" by linarith
        with IH show ?thesis by blast
      qed
    qed
  qed
qed

lemma findclosestpair_loop_7: "findclosestpair_loop 7 (floor_sqrt 7) = None"
  by code_simp

lemma findclosestpair_loop_4: "findclosestpair_loop 4 (floor_sqrt 4) = None"
  by code_simp

lemma findclosestpair_loop_10: "findclosestpair_loop 10 (floor_sqrt 10) = None"
  by code_simp

lemma findclosestpair_loop_12: "findclosestpair_loop 12 (floor_sqrt 12) = Some (3, 4)"
  by code_simp

text \<open>
  C8 (evaluation of the code where it departs from the claim). For \<open>x = 7\<close>
  (a prime), \<open>x = 4\<close> and \<open>x = 10\<close> the loop starts at \<open>y = 2\<close>, \<open>2\<close> and \<open>3\<close> and ends at
  \<open>y = 2\<close> without storing anything: \<open>width\<close> and \<open>height\<close> keep whatever the caller
  had in them (nothing, when they were never assigned), although the largest
  divisors of \<open>x\<close> up to its square root are \<open>1\<close>, \<open>2\<close> and \<open>2\<close>. For \<open>x = 12\<close> the
  pair \<open>(3, 4)\<close> is stored.
\<close>

theorem findclosestpair_leaves_unassigned:
  "findclosestpair 7 wh = wh \<and> findclosestpair 4 wh = wh \<and> findclosestpair 10 wh = wh \<and>
   findclosestpair 7 None = None \<and> findclosestpair 12 wh = Some (3, 4)"
  by (simp add: findclosestpair_def findclosestpair_loop_7 findclosestpair_loop_4
        findclosestpair_loop_10 findclosestpair_loop_12)

section \<open>Steganography: embedding and extraction\<close>

lemma length_hidebits [simp]: "length (hidebits p byte j lim) = length p"
  by (induction p byte j lim rule: hidebits.induct) (subst hidebits.simps, simp)

lemma length_hidepixels [simp]: "length (hidepixels p s i pixels) = length p"
  by (induction p s i pixels rule: hidepixels.induct) (subst hidepixels.simps, simp)

lemma drop1_or1: "drop_bit 1 ((x::uint8) OR 1) = drop_bit 1 x"
  by simp

lemma drop1_andFE: "drop_bit 1 ((x::uint8) AND 0xFE) = drop_bit 1 x"
proof -
  have "drop_bit 1 (0xFE::uint8) = mask 7" by (simp add: mask_eq_exp_minus_1)
  moreover have "drop_bit 1 x AND mask 7 = drop_bit 1 x"
    by (rule bit_eqI) (auto simp add: bit_simps dest: bit_imp_le_length)
  ultimately show ?thesis by (simp only: drop_bit_and)
qed

lemma bit0_or1: "bit ((x::uint8) OR 1) 0" by (simp add: bit_simps)
lemma bit0_andFE: "\<not> bit ((x::uint8) AND 0xFE) 0" by (simp add: bit_simps)
lemma and80: "((b::uint8) AND 0x80 \<noteq> 0) = bit b 7"
proof -
  have "(0x80::uint8) = push_bit 7 1" by simp
  then show ?thesis by (simp only: bit_iff_and_push_bit_not_eq_0)
qed
lemma and01: "((b::uint8) AND 0x01 \<noteq> 0) = bit b 0"
  by (simp add: bit_iff_and_push_bit_not_eq_0)

lemma same_high_xor: "drop_bit 1 (a::uint8) = drop_bit 1 b \<Longrightarrow> a XOR b \<in> {0, 1}"
proof -
  assume "drop_bit 1 a = drop_bit 1 b"
  then have "drop_bit 1 (a XOR b) = 0" by simp
  then have "take_bit 1 (a XOR b) = a XOR b"
    by (simp only: take_bit_eq_self_iff_drop_bit_eq_0)
  moreover have "take_bit 1 (a XOR b) \<in> {0, 1}"
    by (simp add: take_bit_Suc_0 mod2_eq_if del: take_bit_xor)
  ultimately show ?thesis by simp
qed


lemma bit_shl1: "Suc n < 8 \<Longrightarrow> bit (push_bit 1 (b::uint8)) (Suc n) = bit b n"
  by (subst bit_push_bit_iff) (simp add: possible_bit_word)

lemma hidebits_outside: "m < j \<or> lim \<le> m \<Longrightarrow> hidebits p byte j lim ! m = p ! m"
proof (induction p byte j lim rule: hidebits.induct)
  case (1 p byte j lim)
  show ?case
  proof (cases "j < lim")
    case True
    with 1 show ?thesis by (subst hidebits.simps) auto
  next
    case False
    then show ?thesis by (subst hidebits.simps) simp
  qed
qed

lemma hidebits_high:
  "m < length p \<Longrightarrow> drop_bit 1 (hidebits p byte j lim ! m) = drop_bit 1 (p ! m)"
proof (induction p byte j lim rule: hidebits.induct)
  case (1 p byte j lim)
  show ?case
  proof (cases "j < lim")
    case True
    let ?p' = "p[j := (if byte AND 0x80 \<noteq> 0 then (p ! j) OR 0x01 else (p ! j) AND 0xFE)]"
    have "drop_bit 1 (hidebits ?p' (push_bit 1 byte) (j + 1) lim ! m) = drop_bit 1 (?p' ! m)"
      using 1 True by simp
    also have "\<dots> = drop_bit 1 (p ! m)"
      using 1(2) drop1_or1 drop1_andFE by (cases "m = j") auto
    finally show ?thesis using True by (subst hidebits.simps) simp
  next
    case False
    then show ?thesis by (subst hidebits.simps) simp
  qed
qed

lemma hidebits_bit0:
  "j \<le> m \<Longrightarrow> m < lim \<Longrightarrow> lim \<le> j + 8 \<Longrightarrow> lim \<le> length p \<Longrightarrow>
   bit (hidebits p byte j lim ! m) 0 = bit byte (7 - (m - j))"
proof (induction p byte j lim rule: hidebits.induct)
  case (1 p byte j lim)
  let ?p' = "p[j := (if byte AND 0x80 \<noteq> 0 then (p ! j) OR 0x01 else (p ! j) AND 0xFE)]"
  from 1(2,3) have jl: "j < lim" by simp
  then have unf: "hidebits p byte j lim = hidebits ?p' (push_bit 1 byte) (j + 1) lim"
    by (subst hidebits.simps) simp
  show ?case
  proof (cases "m = j")
    case True
    then have "hidebits ?p' (push_bit 1 byte) (j + 1) lim ! m = ?p' ! j"
      by (simp add: hidebits_outside)
    moreover have "bit (?p' ! j) 0 = bit byte 7"
      using jl 1(5) bit0_or1 bit0_andFE and80 by auto
    ultimately show ?thesis using True unf by simp
  next
    case False
    with 1(2) have m: "j + 1 \<le> m" by simp
    have "bit (hidebits ?p' (push_bit 1 byte) (j + 1) lim ! m) 0 =
          bit (push_bit 1 byte) (7 - (m - (j + 1)))"
      using 1(1) [OF jl m] 1(3,4,5) by simp
    also have "\<dots> = bit byte (7 - (m - j))"
    proof -
      from m 1(3,4) have "7 - (m - (j + 1)) = Suc (7 - (m - j))" by simp
      moreover have "Suc (7 - (m - j)) < 8" using m by simp
      ultimately show ?thesis by (simp only: bit_shl1)
    qed
    finally show ?thesis using unf by simp
  qed
qed

lemma hidepixels_outside:
  "m < 8 * i \<or> 8 * pixels \<le> m \<Longrightarrow> hidepixels p s i pixels ! m = p ! m"
proof (induction p s i pixels rule: hidepixels.induct)
  case (1 p s i pixels)
  show ?case
  proof (cases "i < pixels")
    case True
    with 1 show ?thesis
      by (subst hidepixels.simps) (auto simp: hidebits_outside)
  next
    case False
    then show ?thesis by (subst hidepixels.simps) simp
  qed
qed

lemma hidepixels_high:
  "m < length p \<Longrightarrow> drop_bit 1 (hidepixels p s i pixels ! m) = drop_bit 1 (p ! m)"
proof (induction p s i pixels rule: hidepixels.induct)
  case (1 p s i pixels)
  show ?case
  proof (cases "i < pixels")
    case True
    let ?p' = "hidebits p (s ! i) (i * 8) (8 * (i + 1))"
    have "drop_bit 1 (hidepixels ?p' s (i + 1) pixels ! m) = drop_bit 1 (?p' ! m)"
      using 1 True by simp
    also have "\<dots> = drop_bit 1 (p ! m)"
      using 1(2) by (rule hidebits_high)
    finally show ?thesis using True by (subst hidepixels.simps) simp
  next
    case False
    then show ?thesis by (subst hidepixels.simps) simp
  qed
qed

lemma hidepixels_bit0:
  "i \<le> q \<Longrightarrow> q < pixels \<Longrightarrow> d < 8 \<Longrightarrow> 8 * pixels \<le> length p \<Longrightarrow>
   bit (hidepixels p s i pixels ! (8 * q + d)) 0 = bit (s ! q) (7 - d)"
proof (induction p s i pixels rule: hidepixels.induct)
  case (1 p s i pixels)
  let ?p' = "hidebits p (s ! i) (i * 8) (8 * (i + 1))"
  from 1(2,3) have ip: "i < pixels" by simp
  then have unf: "hidepixels p s i pixels = hidepixels ?p' s (i + 1) pixels"
    by (subst hidepixels.simps) simp
  show ?case
  proof (cases "q = i")
    case True
    with 1(4) have "hidepixels ?p' s (i + 1) pixels ! (8 * q + d) = ?p' ! (8 * i + d)"
      by (simp add: hidepixels_outside)
    moreover have "bit (?p' ! (8 * i + d)) 0 = bit (s ! i) (7 - (8 * i + d - i * 8))"
      using 1(4,5) ip by (intro hidebits_bit0) auto
    ultimately show ?thesis using True unf by simp
  next
    case False
    with 1(2) have "i + 1 \<le> q" by simp
    from 1(1) [OF ip this 1(3,4)] 1(5) unf show ?thesis by simp
  qed
qed


lemma drop1_pow: "Suc n < 8 \<Longrightarrow> drop_bit 1 ((2::uint8) ^ Suc n) = 2 ^ n"
  by (rule bit_eqI) (auto simp add: bit_simps)

lemma bit_pow8: "m < 8 \<Longrightarrow> bit ((2::uint8) ^ m) n = (n = m)"
  by (auto simp add: bit_simps)

lemma readbits_bits:
  "j \<le> lim \<Longrightarrow> lim \<le> j + 8 \<Longrightarrow> lim \<le> length p \<Longrightarrow>
   (j < lim \<longrightarrow> msk = 2 ^ (lim - Suc j)) \<Longrightarrow>
   (\<forall>n < lim - j. \<not> bit byte n) \<Longrightarrow>
   \<exists>r. readbits p byte msk j lim = Inr r \<and>
       (\<forall>n<8. bit r n = (if n < lim - j then bit (p ! (lim - Suc n)) 0 else bit byte n))"
proof (induction p byte msk j lim rule: readbits.induct)
  case (1 p byte msk j lim)
  show ?case
  proof (cases "j < lim")
    case False
    with 1(2) show ?thesis by (subst readbits.simps) simp
  next
    case True
    let ?byte' = "if p ! j AND 0x01 \<noteq> 0 then byte OR msk else byte"
    from True 1(4) have jp: "j < length p" by simp
    from True 1(5) have msk: "msk = 2 ^ (lim - Suc j)" by simp
    from True 1(3) have small: "lim - Suc j < 8" by simp
    have unf: "readbits p byte msk j lim = readbits p ?byte' (drop_bit 1 msk) (j + 1) lim"
      using True jp by (subst readbits.simps) simp
    have bit': "bit ?byte' n = (bit byte n \<or> (bit (p ! j) 0 \<and> n = lim - Suc j))" for n
      using msk small by (auto simp add: and01 bit_or_iff bit_pow8)
    have m': "j + 1 < lim \<longrightarrow> drop_bit 1 msk = 2 ^ (lim - Suc (j + 1))"
    proof
      assume a: "j + 1 < lim"
      then have "lim - Suc j = Suc (lim - Suc (j + 1))" by simp
      moreover from a small have "Suc (lim - Suc (j + 1)) < 8" by simp
      ultimately show "drop_bit 1 msk = 2 ^ (lim - Suc (j + 1))"
        using msk drop1_pow by simp
    qed
    have z': "\<forall>n < lim - (j + 1). \<not> bit ?byte' n"
      using 1(6) bit' by auto
    from 1(1) [OF True jp _ _ 1(4) m' z'] True 1(3)
    obtain r where r: "readbits p ?byte' (drop_bit 1 msk) (j + 1) lim = Inr r"
      and rb: "\<forall>n<8. bit r n =
                 (if n < lim - (j + 1) then bit (p ! (lim - Suc n)) 0 else bit ?byte' n)"
      by auto
    have "\<forall>n<8. bit r n = (if n < lim - j then bit (p ! (lim - Suc n)) 0 else bit byte n)"
    proof (intro allI impI)
      fix n :: nat
      assume n8: "n < 8"
      consider "n < lim - (j + 1)" | "n = lim - Suc j" | "lim - j \<le> n"
        using True by linarith
      then show "bit r n = (if n < lim - j then bit (p ! (lim - Suc n)) 0 else bit byte n)"
      proof cases
        case 1
        then have "n < lim - j" by simp
        with 1 rb n8 show ?thesis by simp
      next
        case 2
        then have "\<not> n < lim - (j + 1)" by linarith
        then have "bit r n = bit ?byte' n" using rb n8 by simp
        also have "\<dots> = bit (p ! j) 0" using bit' [of n] 2 1(6) True by auto
        finally have "bit r n = bit (p ! j) 0" .
        moreover have "lim - Suc n = j" using 2 True by simp
        moreover have "n < lim - j" using 2 True by linarith
        ultimately show ?thesis by simp
      next
        case 3
        then have "\<not> n < lim - (j + 1)" by linarith
        then have "bit r n = bit ?byte' n" using rb n8 by simp
        also have "\<dots> = bit byte n" using bit' [of n] 3 True by auto
        finally show ?thesis using 3 by simp
      qed
    qed
    with r unf show ?thesis by simp
  qed
qed

lemma readbits_byte:
  assumes "8 * q + 8 \<le> length p"
  shows "\<exists>r. readbits p 0 0x80 (8 * q) (8 * q + 8) = Inr r \<and>
             (\<forall>n<8. bit r n = bit (p ! (8 * q + 7 - n)) 0)"
proof -
  have "\<exists>r. readbits p 0 0x80 (8 * q) (8 * q + 8) = Inr r \<and>
       (\<forall>n<8. bit r n = (if n < 8 * q + 8 - 8 * q then bit (p ! (8 * q + 8 - Suc n)) 0
                          else bit (0::uint8) n))"
    using assms by (intro readbits_bits) auto
  then obtain r where r: "readbits p 0 0x80 (8 * q) (8 * q + 8) = Inr r"
    and rb: "\<forall>n<8. bit r n = (if n < 8 * q + 8 - 8 * q then bit (p ! (8 * q + 8 - Suc n)) 0
                          else bit (0::uint8) n)" by blast
  have "bit r n = bit (p ! (8 * q + 7 - n)) 0" if "n < 8" for n
  proof -
    from that have "8 * q + 8 - Suc n = 8 * q + 7 - n" by simp
    with rb that show ?thesis by simp
  qed
  with r show ?thesis by blast
qed

lemma readpixels_bits:
  "i \<le> n \<Longrightarrow> n \<le> length spx \<Longrightarrow> 8 * n \<le> length p \<Longrightarrow> length p < 2 ^ 32 \<Longrightarrow>
   \<exists>r. readpixels p spx i n = Inr r \<and> length r = length spx \<and>
       (\<forall>q<length spx. if i \<le> q \<and> q < n
                        then (\<forall>b<8. bit (r ! q) b = bit (p ! (8 * q + 7 - b)) 0)
                        else r ! q = spx ! q)"
proof (induction p spx i n rule: readpixels.induct)
  case (1 p spx i n)
  show ?case
  proof (cases "i < n")
    case False
    with 1(2) show ?thesis by (subst readpixels.simps) auto
  next
    case True
    with 1(4) have le: "8 * i + 8 \<le> length p" by simp
    with 1(5) have m1: "(i * 8) mod 2 ^ 32 = 8 * i" and m2: "(8 * (i + 1)) mod 2 ^ 32 = 8 * i + 8"
      by simp_all
    from readbits_byte [OF le] obtain byte
      where rb: "readbits p 0 0x80 (8 * i) (8 * i + 8) = Inr byte"
        and bb: "\<forall>b<8. bit byte b = bit (p ! (8 * i + 7 - b)) 0" by blast
    have rb': "readbits p 0 0x80 ((i * 8) mod 2 ^ 32) ((8 * (i + 1)) mod 2 ^ 32) = Inr byte"
      using rb m1 m2 by (simp add: mult.commute)
    have unf: "readpixels p spx i n = readpixels p (spx[i := byte]) (i + 1) n"
      using True rb' by (subst readpixels.simps) simp
    have "\<exists>r. readpixels p (spx[i := byte]) (i + 1) n = Inr r \<and>
            length r = length (spx[i := byte]) \<and>
            (\<forall>q<length (spx[i := byte]). if i + 1 \<le> q \<and> q < n
                        then (\<forall>b<8. bit (r ! q) b = bit (p ! (8 * q + 7 - b)) 0)
                        else r ! q = spx[i := byte] ! q)"
      by (rule 1(1) [OF True rb']) (use True 1(3,4,5) in simp_all)
    then obtain r where r: "readpixels p (spx[i := byte]) (i + 1) n = Inr r"
      and lr: "length r = length spx"
      and rq: "\<forall>q<length spx. if i + 1 \<le> q \<and> q < n
                        then (\<forall>b<8. bit (r ! q) b = bit (p ! (8 * q + 7 - b)) 0)
                        else r ! q = spx[i := byte] ! q" by auto
    have "\<forall>q<length spx. if i \<le> q \<and> q < n
                        then (\<forall>b<8. bit (r ! q) b = bit (p ! (8 * q + 7 - b)) 0)
                        else r ! q = spx ! q"
    proof (intro allI impI)
      fix q assume q: "q < length spx"
      show "if i \<le> q \<and> q < n
            then (\<forall>b<8. bit (r ! q) b = bit (p ! (8 * q + 7 - b)) 0)
            else r ! q = spx ! q"
      proof (cases "q = i")
        case True
        with rq q have "r ! q = byte" by simp
        with bb True \<open>i < n\<close> show ?thesis by simp
      next
        case False
        with rq q show ?thesis by (auto split: if_splits)
      qed
    qed
    with r lr unf show ?thesis by simp
  qed
qed


lemma hideshadow_Inr:
  assumes "unat (bmpimagesize S) \<le> length (imgpixels S)"
      and "8 * unat (bmpimagesize S) \<le> length (imgpixels C)"
  shows "hideshadow C S =
           Inr (C\<lparr>bmpheader := (bmpheader C)\<lparr>unused1 := unused1 (bmpheader S),
                                                unused2 := unused2 (bmpheader S)\<rparr>,
                  imgpixels := hidepixels (imgpixels C) (imgpixels S) 0 (unat (bmpimagesize S))\<rparr>)"
  using assms by (simp add: hideshadow_def Let_def)

text \<open>
  C7. Embedding touches only least-significant bits. For a shadow \<open>S\<close> with
  \<open>bmpimagesize S = M\<close> (and at least \<open>M\<close> bytes behind it) and a carrier \<open>C\<close> with
  at least \<open>8 * M\<close> pixel bytes, \<open>hideshadow C S\<close> returns a carrier with as many
  pixel bytes, each of which differs from the original by an exclusive-or of 0
  or 1 (its upper seven bits are those of the original), and the pixel bytes
  from index \<open>8 * M\<close> on are the original ones.
\<close>

theorem hideshadow_lsb_only:
  assumes "unat (bmpimagesize S) \<le> length (imgpixels S)"
      and "8 * unat (bmpimagesize S) \<le> length (imgpixels C)"
  shows "\<exists>C'. hideshadow C S = Inr C' \<and>
           length (imgpixels C') = length (imgpixels C) \<and>
           (\<forall>i<length (imgpixels C).
               imgpixels C' ! i XOR imgpixels C ! i \<in> {0, 1} \<and>
               drop_bit 1 (imgpixels C' ! i) = drop_bit 1 (imgpixels C ! i)) \<and>
           (\<forall>i<length (imgpixels C).
               8 * unat (bmpimagesize S) \<le> i \<longrightarrow> imgpixels C' ! i = imgpixels C ! i)"
proof -
  let ?q = "hidepixels (imgpixels C) (imgpixels S) 0 (unat (bmpimagesize S))"
  have high: "drop_bit 1 (?q ! i) = drop_bit 1 (imgpixels C ! i)" if "i < length (imgpixels C)" for i
    using that by (rule hidepixels_high)
  then have "?q ! i XOR imgpixels C ! i \<in> {0, 1}" if "i < length (imgpixels C)" for i
    using that by (intro same_high_xor) simp
  moreover have "?q ! i = imgpixels C ! i" if "8 * unat (bmpimagesize S) \<le> i" for i
    using that by (simp add: hidepixels_outside)
  ultimately show ?thesis
    using high by (simp add: hideshadow_Inr [OF assms])
qed

lemma hide_example: "hidepixels (replicate 8 0) [0xB4] 0 1 = [0x01, 0x00, 0x01, 0x01, 0x00, 0x01, 0x00, 0x00]"
  by code_simp

lemma word_eq_bits8: "(\<And>n. n < 8 \<Longrightarrow> bit (a::uint8) n = bit b n) \<Longrightarrow> a = b"
  by (rule bit_eqI) (simp add: possible_bit_word)

lemma hideshadow_example: "map_sum id imgpixels (hideshadow carrier0 shadow0) =
       Inr [0x01, 0x00, 0x01, 0x01, 0x00, 0x01, 0x00, 0x00]"
  using hide_example
  by (simp add: hideshadow_def carrier0_def shadow0_def newshadow_def newbitmaphelper_def
       bmpimagesize_def PIXEL_ARRAY_OFFSET_def BMP_HEADER_SIZE_def DIB_HEADER_SIZE_def
       PALETTE_SIZE_def Let_def)

text \<open>
  Where the dimensions that \<open>retrieveshadow\<close> gets from \<open>findclosestpair\<close>
  multiply to the size \<open>M\<close> of the embedded shadow, extraction inverts embedding:
  from \<open>hideshadow C S\<close> it reads back exactly the pixel bytes of \<open>S\<close> (for a
  carrier of at least \<open>8 * M\<close> and fewer than \<open>2 ^ 32\<close> pixel bytes). Embedding the
  byte \<open>0b10110100\<close> into eight zero carrier bytes yields \<open>[1, 0, 1, 1, 0, 1, 0, 0]\<close>.
\<close>

lemma retrieveshadow_hideshadow_dims:
  assumes sz: "length (imgpixels S) = unat (bmpimagesize S)"
      and big: "8 * unat (bmpimagesize S) \<le> length (imgpixels C)"
      and c32: "length (imgpixels C) < 2 ^ 32"
      and k: "k \<noteq> 0"
      and dims: "findclosestpair (calculatepixelarraysize w h div ucast k) (Some (w, h))
                   = Some (w', h')"
      and cnt: "w' * h' = bmpimagesize S"
  shows "(\<exists>C' S'. hideshadow C S = Inr C' \<and> retrieveshadow C' w h k = Inr S' \<and>
                  imgpixels S' = imgpixels S) \<and>
         map_sum id imgpixels (hideshadow carrier0 shadow0) =
           Inr [0x01, 0x00, 0x01, 0x01, 0x00, 0x01, 0x00, 0x00]"
proof -
  let ?M = "unat (bmpimagesize S)"
  let ?q = "hidepixels (imgpixels C) (imgpixels S) 0 ?M"
  let ?C' = "C\<lparr>bmpheader := (bmpheader C)\<lparr>unused1 := unused1 (bmpheader S),
                                             unused2 := unused2 (bmpheader S)\<rparr>,
               imgpixels := ?q\<rparr>"
  have hide: "hideshadow C S = Inr ?C'"
    using sz big by (intro hideshadow_Inr) simp_all
  let ?sh = "newshadow w' h' (unused1 (bmpheader ?C')) (unused2 (bmpheader ?C'))"
  have shp: "unat (pixelarraysize (dibheader ?sh)) = ?M"
    using cnt by (simp add: newshadow_def newbitmaphelper_def)
  have shl: "length (imgpixels ?sh) = ?M"
    using cnt by (simp add: newshadow_def newbitmaphelper_def)
  from readpixels_bits [of 0 ?M "imgpixels ?sh" ?q] shl big c32
  obtain r where r: "readpixels ?q (imgpixels ?sh) 0 ?M = Inr r"
    and lr: "length r = ?M"
    and rb: "\<forall>q<?M. \<forall>b<8. bit (r ! q) b = bit (?q ! (8 * q + 7 - b)) 0"
    by auto
  have "r ! q = imgpixels S ! q" if q: "q < ?M" for q
  proof (rule word_eq_bits8)
    fix n :: nat
    assume n: "n < 8"
    have "bit (r ! q) n = bit (?q ! (8 * q + (7 - n))) 0"
      using rb q n by simp
    also have "\<dots> = bit (imgpixels S ! q) (7 - (7 - n))"
      using q n big by (intro hidepixels_bit0) simp_all
    also have "7 - (7 - n) = n" using n by simp
    finally show "bit (r ! q) n = bit (imgpixels S ! q) n" .
  qed
  with lr sz have eq: "r = imgpixels S"
    by (intro nth_equalityI) simp_all
  have "retrieveshadow ?C' w h k = Inr (?sh\<lparr>imgpixels := r\<rparr>)"
    using k dims r shp by (simp add: retrieveshadow_def Let_def)
  with hide eq hideshadow_example show ?thesis by simp
qed


lemma dims1: "findclosestpair (calculatepixelarraysize 36 1 div ucast (4::uint16)) (Some (36, 1)) = Some (3, 3)"
  by code_simp

lemma sz1: "bmpimagesize shadow1 = 9"
  by (simp add: shadow1_def newshadow_def newbitmaphelper_def bmpimagesize_def
       PIXEL_ARRAY_OFFSET_def BMP_HEADER_SIZE_def DIB_HEADER_SIZE_def PALETTE_SIZE_def)

lemma retrieveshadow_hideshadow_dims_example:
  "length (imgpixels shadow1) = unat (bmpimagesize shadow1) \<and>
   8 * unat (bmpimagesize shadow1) \<le> length (imgpixels carrier1) \<and>
   length (imgpixels carrier1) < 2 ^ 32 \<and> (4::uint16) \<noteq> 0 \<and>
   findclosestpair (calculatepixelarraysize 36 1 div ucast (4::uint16)) (Some (36, 1)) = Some (3, 3) \<and>
   (3::uint32) * 3 = bmpimagesize shadow1 \<and>
   (\<exists>C' S'. hideshadow carrier1 shadow1 = Inr C' \<and> retrieveshadow C' 36 1 4 = Inr S' \<and>
                  imgpixels S' = imgpixels shadow1) \<and>
   map_sum id imgpixels (hideshadow carrier0 shadow0) =
     Inr [0x01, 0x00, 0x01, 0x01, 0x00, 0x01, 0x00, 0x00]"
proof -
  have a: "length (imgpixels shadow1) = unat (bmpimagesize shadow1)"
    by (simp add: sz1) (simp add: shadow1_def)
  have b: "8 * unat (bmpimagesize shadow1) \<le> length (imgpixels carrier1)"
    by (simp add: sz1) (simp add: carrier1_def newbitmaphelper_def)
  have c: "length (imgpixels carrier1) < 2 ^ 32"
    by (simp add: carrier1_def newbitmaphelper_def)
  have d: "(4::uint16) \<noteq> 0" by simp
  have e: "(3::uint32) * 3 = bmpimagesize shadow1" by (simp add: sz1)
  from retrieveshadow_hideshadow_dims [OF a b c d dims1 e] a b c d dims1 e
  show ?thesis by blast
qed

lemma replicate_4: "replicate 4 (0::uint8) = [0, 0, 0, 0]"
  by code_simp

lemma size_shadow_a: "bmpimagesize shadow_a = 2"
  by (simp add: shadow_a_def newshadow_def newbitmaphelper_def bmpimagesize_def
       PIXEL_ARRAY_OFFSET_def BMP_HEADER_SIZE_def DIB_HEADER_SIZE_def PALETTE_SIZE_def)

lemma dims_a: "findclosestpair (calculatepixelarraysize 4 1 div 2) (Some (4, 1)) = Some (4, 1)"
  by code_simp

lemma hide16: "hidepixels (replicate 16 0) [30, 70] 0 2 = [0,0,0,1,1,1,1,0, 0,1,0,0,0,1,1,0]"
  by code_simp

lemma hide32: "hidepixels (replicate 32 0) [30, 70] 0 2 =
    [0,0,0,1,1,1,1,0, 0,1,0,0,0,1,1,0, 0,0,0,0,0,0,0,0, 0,0,0,0,0,0,0,0]"
  by code_simp

lemma read16: "readpixels [0,0,0,1,1,1,1,0, 0,1,0,0,0,1,1,0] [0, 0, 0, 0] 0 4 = Inl OutOfBounds"
  by (simp add: readpixels.simps readbits.simps)

lemma read32: "readpixels [0,0,0,1,1,1,1,0, 0,1,0,0,0,1,1,0, 0,0,0,0,0,0,0,0, 0,0,0,0,0,0,0,0]
                 [0, 0, 0, 0] 0 4 = Inr [30, 70, 0, 0]"
  by (simp add: readpixels.simps readbits.simps)

lemma hideshadow16: "hideshadow carrier16 shadow_a =
    Inr (carrier16\<lparr>bmpheader := (bmpheader carrier16)\<lparr>unused1 := 691, unused2 := 1\<rparr>,
                   imgpixels := [0,0,0,1,1,1,1,0, 0,1,0,0,0,1,1,0]\<rparr>)"
  using hide16
  by (simp add: hideshadow_def size_shadow_a Let_def)
     (simp add: shadow_a_def carrier16_def newshadow_def newbitmaphelper_def)

lemma hideshadow32: "hideshadow carrier32 shadow_a =
    Inr (carrier32\<lparr>bmpheader := (bmpheader carrier32)\<lparr>unused1 := 691, unused2 := 1\<rparr>,
                   imgpixels := [0,0,0,1,1,1,1,0, 0,1,0,0,0,1,1,0,
                                 0,0,0,0,0,0,0,0, 0,0,0,0,0,0,0,0]\<rparr>)"
  using hide32
  by (simp add: hideshadow_def size_shadow_a Let_def)
     (simp add: shadow_a_def carrier32_def newshadow_def newbitmaphelper_def)

text \<open>
  C6 (fails on the code). \<open>retrieveshadow\<close> does not always read back the shadow
  that \<open>hideshadow\<close> embedded. It takes the number of bytes to read from
  \<open>findclosestpair\<close>, and where that function assigns nothing the width and
  height of the secret stay in place: the shadow read is as large as the whole
  secret, \<open>k\<close> times the embedded one. For the shadow \<open>[30, 70]\<close> of the 4 x 1
  secret with \<open>k = 2\<close> (so \<open>M = 2 = 4 / k\<close>): from a carrier of exactly
  \<open>8 * M = 16\<close> pixel bytes \<open>retrieveshadow\<close> reads beyond the pixel array, and
  from a carrier of 32 pixel bytes it returns the four bytes \<open>[30, 70, 0, 0]\<close>
  instead of \<open>[30, 70]\<close>.
\<close>

theorem retrieveshadow_reads_secret_size:
  "imgpixels shadow_a = [30, 70] \<and>
   calculatepixelarraysize 4 1 div ucast (2::uint16) = bmpimagesize shadow_a \<and>
   length (imgpixels carrier16) = 8 * unat (bmpimagesize shadow_a) \<and>
   length (imgpixels carrier32) = 16 * unat (bmpimagesize shadow_a) \<and>
   (case hideshadow carrier16 shadow_a of
      Inl e \<Rightarrow> False
    | Inr C' \<Rightarrow> retrieveshadow C' 4 1 2 = Inl OutOfBounds) \<and>
   (case hideshadow carrier32 shadow_a of
      Inl e \<Rightarrow> False
    | Inr C' \<Rightarrow> map_sum id imgpixels (retrieveshadow C' 4 1 2) = Inr [30, 70, 0, 0])"
proof -
  have 1: "imgpixels shadow_a = [30, 70]" by (simp add: shadow_a_def)
  have 2: "calculatepixelarraysize 4 1 div ucast (2::uint16) = bmpimagesize shadow_a"
    by (simp add: size_shadow_a calculatepixelarraysize_def BITS_PER_PIXEL_def)
  have 3: "length (imgpixels carrier16) = 8 * unat (bmpimagesize shadow_a)"
    by (simp add: size_shadow_a carrier16_def newbitmaphelper_def)
  have 6: "length (imgpixels carrier32) = 16 * unat (bmpimagesize shadow_a)"
    by (simp add: size_shadow_a carrier32_def newbitmaphelper_def)
  have 4: "retrieveshadow
             (carrier16\<lparr>bmpheader := (bmpheader carrier16)\<lparr>unused1 := 691, unused2 := 1\<rparr>,
                         imgpixels := [0,0,0,1,1,1,1,0, 0,1,0,0,0,1,1,0]\<rparr>) 4 1 2
           = Inl OutOfBounds"
    using read16
    by (simp add: retrieveshadow_def dims_a Let_def newshadow_def newbitmaphelper_def replicate_4)
  have 5: "map_sum id imgpixels (retrieveshadow
             (carrier32\<lparr>bmpheader := (bmpheader carrier32)\<lparr>unused1 := 691, unused2 := 1\<rparr>,
                         imgpixels := [0,0,0,1,1,1,1,0, 0,1,0,0,0,1,1,0,
                                       0,0,0,0,0,0,0,0, 0,0,0,0,0,0,0,0]\<rparr>) 4 1 2)
           = Inr [30, 70, 0, 0]"
    using read32
    by (simp add: retrieveshadow_def dims_a Let_def newshadow_def newbitmaphelper_def replicate_4)
  from 1 2 3 6 4 5 show ?thesis
    by (simp only: hideshadow16 hideshadow32 sum.case)
qed

theorem hideshadow_lsb_only_witness:
  "unat (bmpimagesize shadow0) \<le> length (imgpixels shadow0) \<and>
   8 * unat (bmpimagesize shadow0) \<le> length (imgpixels carrier0) \<and>
   (\<exists>C'. hideshadow carrier0 shadow0 = Inr C' \<and>
           length (imgpixels C') = length (imgpixels carrier0) \<and>
           (\<forall>i<length (imgpixels carrier0).
               imgpixels C' ! i XOR imgpixels carrier0 ! i \<in> {0, 1} \<and>
               drop_bit 1 (imgpixels C' ! i) = drop_bit 1 (imgpixels carrier0 ! i)) \<and>
           (\<forall>i<length (imgpixels carrier0).
               8 * unat (bmpimagesize shadow0) \<le> i \<longrightarrow> imgpixels C' ! i = imgpixels carrier0 ! i))"
proof -
  have s: "bmpimagesize shadow0 = 1"
    by (simp add: shadow0_def newshadow_def newbitmaphelper_def bmpimagesize_def
       PIXEL_ARRAY_OFFSET_def BMP_HEADER_SIZE_def DIB_HEADER_SIZE_def PALETTE_SIZE_def)
  have a: "unat (bmpimagesize shadow0) \<le> length (imgpixels shadow0)"
    by (simp add: s) (simp add: shadow0_def)
  have b: "8 * unat (bmpimagesize shadow0) \<le> length (imgpixels carrier0)"
    by (simp add: s) (simp add: carrier0_def newbitmaphelper_def)
  from hideshadow_lsb_only [OF a b] a b show ?thesis by blast
qed

section \<open>The permutation and its inverse\<close>

lemma randint_le:
  assumes "fst (lib_rand L st) \<le> lib_RAND_MAX L"
  shows "fst (randint L mx st) \<le> mx"
proof -
  obtain r st' where r: "lib_rand L st = (r, st')" by (cases "lib_rand L st")
  with assms have "r < lib_RAND_MAX L + 1" by simp
  then have "r * (mx + 1) < (lib_RAND_MAX L + 1) * (mx + 1)"
    by (rule mult_less_mono1) simp
  then have "r * (mx + 1) < (mx + 1) * (lib_RAND_MAX L + 1)"
    by (simp only: mult.commute)
  then have "(r * (mx + 1)) div (lib_RAND_MAX L + 1) < mx + 1"
    by (simp add: less_mult_imp_div_less)
  with r show ?thesis by (simp add: randint_def)
qed

lemma length_swap [simp]: "length (swap p s t) = length p"
  by (simp add: swap_def Let_def)

lemma swap_other: "m \<noteq> s \<Longrightarrow> m \<noteq> t \<Longrightarrow> swap p s t ! m = p ! m"
  by (simp add: swap_def Let_def)

lemma swap_right: "t < length p \<Longrightarrow> swap p s t ! t = p ! s"
  by (simp add: swap_def Let_def)

lemma length_draw_loop [simp]: "length (draw_loop L ps i st) = length ps"
proof (induction L ps i st rule: draw_loop.induct)
  case (1 L ps i st)
  show ?case
  proof (cases "i > 0")
    case True
    obtain j st' where j: "randint L i st = (j, st')" by (cases "randint L i st")
    with 1 True show ?thesis by (subst draw_loop.simps) simp
  next
    case False
    then show ?thesis by (subst draw_loop.simps) simp
  qed
qed

lemma draw_loop_le:
  "\<forall>st. fst (lib_rand L st) \<le> lib_RAND_MAX L \<Longrightarrow> m < length ps \<Longrightarrow> 0 < m \<Longrightarrow>
   (i < m \<longrightarrow> ps ! m \<le> m) \<Longrightarrow> draw_loop L ps i st ! m \<le> m"
proof (induction L ps i st rule: draw_loop.induct)
  case (1 L ps i st)
  show ?case
  proof (cases "i > 0")
    case True
    obtain j st' where j: "randint L i st = (j, st')" by (cases "randint L i st")
    from 1(2) have "fst (randint L i st) \<le> i" by (intro randint_le) simp
    with j have ji: "j \<le> i" by simp
    have unf: "draw_loop L ps i st = draw_loop L (ps[i := j]) (i - 1) st'"
      using True j by (subst draw_loop.simps) simp
    have "draw_loop L (ps[i := j]) (i - 1) st' ! m \<le> m"
    proof (rule 1(1) [OF True j [symmetric] refl 1(2)])
      show "m < length (ps[i := j])" using 1(3) by simp
      show "0 < m" by (rule 1(4))
      show "i - 1 < m \<longrightarrow> ps[i := j] ! m \<le> m"
        using 1(3,5) ji True by (cases "m = i") auto
    qed
    with unf show ?thesis by simp
  next
    case False
    with 1 show ?thesis by (subst draw_loop.simps) simp
  qed
qed

lemma length_unswap_loop [simp]: "length (unswap_loop p permseq i lim) = length p"
proof (induction p permseq i lim rule: unswap_loop.induct)
  case (1 p permseq i lim)
  then show ?case by (subst unswap_loop.simps) (simp add: Let_def)
qed

lemma unswap_loop_beyond:
  "\<forall>t. i \<le> t \<and> t < lim \<longrightarrow> permseq ! t \<le> t \<Longrightarrow> lim \<le> m \<Longrightarrow>
   unswap_loop p permseq i lim ! m = p ! m"
proof (induction p permseq i lim rule: unswap_loop.induct)
  case (1 p permseq i lim)
  show ?case
  proof (cases "i < lim")
    case True
    with 1(2) have "permseq ! i \<le> i" by simp
    with True 1(3) have "swap p (permseq ! i) i ! m = p ! m"
      by (intro swap_other) simp_all
    moreover have "unswap_loop (swap p (permseq ! i) i) permseq (i + 1) lim ! m =
                   swap p (permseq ! i) i ! m"
      using 1(2,3) by (intro 1(1) [OF True refl]) simp_all
    ultimately show ?thesis using True by (subst unswap_loop.simps) (simp add: Let_def)
  next
    case False
    then show ?thesis by (subst unswap_loop.simps) simp
  qed
qed

lemma length_permute_loop [simp]: "length (permute_loop L p i st) = length p"
proof (induction L p i st rule: permute_loop.induct)
  case (1 L p i st)
  show ?case
  proof (cases "i > 1")
    case True
    obtain j st' where j: "randint L i st = (j, st')" by (cases "randint L i st")
    with 1 True show ?thesis by (subst permute_loop.simps) simp
  next
    case False
    then show ?thesis by (subst permute_loop.simps) simp
  qed
qed

lemma permute_loop_beyond:
  "\<forall>st. fst (lib_rand L st) \<le> lib_RAND_MAX L \<Longrightarrow> i < m \<Longrightarrow>
   permute_loop L p i st ! m = p ! m"
proof (induction L p i st rule: permute_loop.induct)
  case (1 L p i st)
  show ?case
  proof (cases "i > 1")
    case True
    obtain j st' where j: "randint L i st = (j, st')" by (cases "randint L i st")
    from 1(2) have "fst (randint L i st) \<le> i" by (intro randint_le) simp
    with j have ji: "j \<le> i" by simp
    have "permute_loop L (swap p j i) (i - 1) st' ! m = swap p j i ! m"
      using 1(3) by (intro 1(1) [OF True j [symmetric] refl 1(2)]) simp
    also have "\<dots> = p ! m" using ji 1(3) by (intro swap_other) simp_all
    finally show ?thesis using True j by (subst permute_loop.simps) simp
  next
    case False
    then show ?thesis by (subst permute_loop.simps) simp
  qed
qed

lemma permute_loop_last:
  assumes "\<forall>st. fst (lib_rand L st) \<le> lib_RAND_MAX L" and "1 < i" and "i < length p"
  shows "permute_loop L p i st ! i = p ! fst (randint L i st)"
proof -
  obtain j st' where j: "randint L i st = (j, st')" by (cases "randint L i st")
  have "permute_loop L p i st = permute_loop L (swap p j i) (i - 1) st'"
    using assms(2) j by (subst permute_loop.simps) simp
  also have "\<dots> ! i = swap p j i ! i"
    using assms by (intro permute_loop_beyond) simp_all
  also have "\<dots> = p ! j" using assms(3) by (rule swap_right)
  finally show ?thesis using j by simp
qed

lemma unpermutepixels_last:
  assumes bound: "\<forall>st. fst (lib_rand L st) \<le> lib_RAND_MAX L"
      and len: "length (imgpixels bp) = unat (bmpimagesize bp)"
      and n: "2 \<le> unat (bmpimagesize bp)"
  shows "\<exists>bp'. unpermutepixels L bp seed = Inr bp' \<and>
           length (imgpixels bp') = length (imgpixels bp) \<and>
           imgpixels bp' ! (unat (bmpimagesize bp) - 1) =
             imgpixels bp ! (unat (bmpimagesize bp) - 1)"
proof -
  let ?N = "unat (bmpimagesize bp)"
  let ?ps = "draw_loop L (replicate ?N 0) (?N - 1) (lib_srand L seed)"
  from n have nz: "bmpimagesize bp \<noteq> 0" by auto
  then have i0: "unat (bmpimagesize bp - 1) = ?N - 1"
    by (simp add: unat_minus_one)
  have ps: "\<forall>t. 1 \<le> t \<and> t < ?N - 1 \<longrightarrow> ?ps ! t \<le> t"
    using bound by (auto intro!: draw_loop_le)
  have "unswap_loop (imgpixels bp) ?ps 1 (?N - 1) ! (?N - 1) = imgpixels bp ! (?N - 1)"
    using ps by (intro unswap_loop_beyond) simp_all
  then show ?thesis
    using nz i0 len n by (auto simp add: unpermutepixels_def Let_def)
qed


lemma ansi_bound: "\<forall>st. fst (lib_rand ansi_rand st) \<le> lib_RAND_MAX ansi_rand"
proof
  fix st :: nat
  have "((st * 1103515245 + 12345) mod 2 ^ 32 div 65536) mod 32768 < (32768::nat)"
    by (rule mod_less_divisor) simp
  then show "fst (lib_rand ansi_rand st) \<le> lib_RAND_MAX ansi_rand"
    by (simp add: ansi_rand_def Let_def)
qed

lemma bmpimagesize_imgpixels_update [simp]:
  "bmpimagesize (bp\<lparr>imgpixels := px\<rparr>) = bmpimagesize bp"
  by (simp add: bmpimagesize_def)

lemma buffer10_size: "bmpimagesize buffer10 = 10"
  by (simp add: buffer10_def newbitmaphelper_def bmpimagesize_def
       PIXEL_ARRAY_OFFSET_def BMP_HEADER_SIZE_def DIB_HEADER_SIZE_def PALETTE_SIZE_def)

lemma ansi_step: "randint ansi_rand mx st =
  (((st * 1103515245 + 12345) mod 4294967296 div 65536 mod 32768) * (mx + 1) div 32768,
   (st * 1103515245 + 12345) mod 4294967296)"
  by (simp add: randint_def ansi_rand_def Let_def)

lemma ansi_seed: "lib_srand ansi_rand seed = unat seed"
  by (simp add: ansi_rand_def)

lemma permute_buffer10:
  "permute_loop ansi_rand [0, 1, 2, 3, 4, 5, 6, 7, 8, 9] 9 (lib_srand ansi_rand 691) =
     [5, 8, 2, 6, 1, 9, 4, 7, 3, 0]"
  by (simp add: permute_loop.simps ansi_step ansi_seed swap_def Let_def)

lemma replicate10: "replicate 10 (0::nat) = [0, 0, 0, 0, 0, 0, 0, 0, 0, 0]"
  by code_simp

lemma draw_buffer10:
  "draw_loop ansi_rand (replicate 10 0) 9 (lib_srand ansi_rand 691) = [0, 1, 2, 1, 1, 0, 4, 7, 3, 0]"
  by (simp add: replicate10 draw_loop.simps ansi_step ansi_seed Let_def)

lemma unswap_buffer10:
  "unswap_loop [5, 8, 2, 6, 1, 9, 4, 7, 3, 0] [0, 1, 2, 1, 1, 0, 4, 7, 3, 0] 1 9 =
     [9, 1, 2, 3, 4, 5, 6, 7, 8, 0]"
  by (simp add: unswap_loop.simps swap_def Let_def)
lemma permutepixels_buffer10:
  "permutepixels ansi_rand buffer10 691 =
     Inr (buffer10\<lparr>imgpixels := [5, 8, 2, 6, 1, 9, 4, 7, 3, 0]\<rparr>)"
  using permute_buffer10
  by (simp add: permutepixels_def buffer10_size Let_def) (simp add: buffer10_def)

lemma unpermutepixels_buffer10:
  "unpermutepixels ansi_rand (buffer10\<lparr>imgpixels := [5, 8, 2, 6, 1, 9, 4, 7, 3, 0]\<rparr>) 691 =
     Inr (buffer10\<lparr>imgpixels := [9, 1, 2, 3, 4, 5, 6, 7, 8, 0]\<rparr>)"
proof -
  show ?thesis
    using draw_buffer10 unswap_buffer10
    by (simp add: unpermutepixels_def buffer10_size Let_def)
qed

lemma unpermute_permute_last:
  assumes bound: "\<forall>st. fst (lib_rand L st) \<le> lib_RAND_MAX L"
      and len: "length (imgpixels bp) = unat (bmpimagesize bp)"
      and n: "3 \<le> unat (bmpimagesize bp)"
  shows "\<exists>b b'. permutepixels L bp seed = Inr b \<and> unpermutepixels L b seed = Inr b' \<and>
           imgpixels b' ! (unat (bmpimagesize bp) - 1) =
             imgpixels bp ! fst (randint L (unat (bmpimagesize bp) - 1) (lib_srand L seed))"
proof -
  let ?N = "unat (bmpimagesize bp)"
  let ?q = "permute_loop L (imgpixels bp) (?N - 1) (lib_srand L seed)"
  let ?b = "bp\<lparr>imgpixels := ?q\<rparr>"
  from n have nz: "bmpimagesize bp \<noteq> 0" by auto
  then have i0: "unat (bmpimagesize bp - 1) = ?N - 1"
    by (simp add: unat_minus_one)
  have p: "permutepixels L bp seed = Inr ?b"
    using i0 len n by (auto simp add: permutepixels_def Let_def)
  have "length (imgpixels ?b) = unat (bmpimagesize ?b)" using len by simp
  moreover have "2 \<le> unat (bmpimagesize ?b)" using n by simp
  ultimately obtain b' where u: "unpermutepixels L ?b seed = Inr b'"
    and l: "imgpixels b' ! (unat (bmpimagesize ?b) - 1) = imgpixels ?b ! (unat (bmpimagesize ?b) - 1)"
    using unpermutepixels_last [OF bound, of ?b seed] by blast
  have "?q ! (?N - 1) = imgpixels bp ! fst (randint L (?N - 1) (lib_srand L seed))"
    using bound n len by (intro permute_loop_last) simp_all
  with l have "imgpixels b' ! (?N - 1) =
                 imgpixels bp ! fst (randint L (?N - 1) (lib_srand L seed))" by simp
  with p u show ?thesis by blast
qed

text \<open>
  C5 (evaluation of the code where it departs from the claim). With the
  library generator of the C standard and seed 691, permuting the buffer
  \<open>[0, \<dots>, 9]\<close> and then unpermuting it with the same seed gives
  \<open>[9, 1, 2, 3, 4, 5, 6, 7, 8, 0]\<close>, not the original buffer: the first swap of
  \<open>permutepixels\<close> (index 9 with index 0) is never undone. Lemma
  \<open>unpermute_permute_last\<close> shows the same for every generator: the last byte
  after the round trip is the byte that the first draw selected.
\<close>

theorem unpermute_permute_not_identity:
  "imgpixels buffer10 = [0, 1, 2, 3, 4, 5, 6, 7, 8, 9] \<and>
   (case permutepixels ansi_rand buffer10 691 of
      Inl e \<Rightarrow> Inl e
    | Inr b \<Rightarrow> map_sum id imgpixels (unpermutepixels ansi_rand b 691)) =
     Inr [9, 1, 2, 3, 4, 5, 6, 7, 8, 0]"
  by (simp add: permutepixels_buffer10 unpermutepixels_buffer10) (simp add: buffer10_def)

text \<open>
  C10. For every bitmap of \<open>N \<ge> 3\<close> pixel bytes, every seed and every library
  generator whose \<open>rand\<close> stays within \<open>RAND_MAX\<close>, \<open>unpermutepixels\<close> returns a
  bitmap whose last pixel byte \<open>N - 1\<close> is the one it was given, and every
  stored draw satisfies \<open>permseq[i] \<le> i\<close>.
\<close>

theorem unpermutepixels_fixes_last:
  assumes bound: "\<forall>st. fst (lib_rand L st) \<le> lib_RAND_MAX L"
      and len: "length (imgpixels bp) = unat (bmpimagesize bp)"
      and n: "3 \<le> unat (bmpimagesize bp)"
  shows "(\<exists>bp'. unpermutepixels L bp seed = Inr bp' \<and>
           length (imgpixels bp') = length (imgpixels bp) \<and>
           imgpixels bp' ! (unat (bmpimagesize bp) - 1) =
             imgpixels bp ! (unat (bmpimagesize bp) - 1)) \<and>
         (\<forall>i. 1 \<le> i \<and> i \<le> unat (bmpimagesize bp) - 1 \<longrightarrow>
            draw_loop L (replicate (unat (bmpimagesize bp)) 0) (unat (bmpimagesize bp) - 1)
              (lib_srand L seed) ! i \<le> i)"
proof -
  from n have "2 \<le> unat (bmpimagesize bp)" by simp
  from unpermutepixels_last [OF bound len this]
  have "\<exists>bp'. unpermutepixels L bp seed = Inr bp' \<and>
           length (imgpixels bp') = length (imgpixels bp) \<and>
           imgpixels bp' ! (unat (bmpimagesize bp) - 1) =
             imgpixels bp ! (unat (bmpimagesize bp) - 1)" .
  moreover have "draw_loop L (replicate (unat (bmpimagesize bp)) 0) (unat (bmpimagesize bp) - 1)
              (lib_srand L seed) ! i \<le> i"
    if "1 \<le> i \<and> i \<le> unat (bmpimagesize bp) - 1" for i
  proof -
    from that n have "i < unat (bmpimagesize bp)" "0 < i" by linarith+
    then show ?thesis by (intro draw_loop_le [OF bound]) simp_all
  qed
  ultimately show ?thesis by blast
qed

theorem unpermutepixels_fixes_last_witness:
  "(\<forall>st. fst (lib_rand ansi_rand st) \<le> lib_RAND_MAX ansi_rand) \<and>
   length (imgpixels buffer10) = unat (bmpimagesize buffer10) \<and>
   3 \<le> unat (bmpimagesize buffer10) \<and>
   (\<exists>bp'. unpermutepixels ansi_rand buffer10 691 = Inr bp' \<and>
           length (imgpixels bp') = length (imgpixels buffer10) \<and>
           imgpixels bp' ! (unat (bmpimagesize buffer10) - 1) =
             imgpixels buffer10 ! (unat (bmpimagesize buffer10) - 1))"
proof -
  have len: "length (imgpixels buffer10) = unat (bmpimagesize buffer10)"
    by (simp add: buffer10_size) (simp add: buffer10_def)
  have n: "3 \<le> unat (bmpimagesize buffer10)" by (simp add: buffer10_size)
  from unpermutepixels_fixes_last [OF ansi_bound len n, of 691] ansi_bound len n
  show ?thesis by blast
qed

section \<open>Parameter checks\<close>

text \<open>
  C9 (the claim as stated fails). With \<open>k = 2\<close> and \<open>n = 251\<close> every check of
  \<open>main\<close> passes and \<open>distributeimage\<close> is called with \<open>n = 251\<close>; the option
  \<open>-n\<close> itself accepts every value up to 65535.
\<close>

theorem main_accepts_n251:
  "n_var vars_n251 > 250 \<and> store_uint16 ''n must be 2 <= n <= 65535'' 251 = Inr (n_var vars_n251) \<and>
   main_checks vars_n251 0 = Inr (Distribute 2 251 691)"
  by (simp add: vars_n251_def main_checks_def store_uint16_def UINT16_MAX_def)

text \<open>
  The 16-bit variables hold a parsed value in \<open>0, \<dots>, 65535\<close> as it is, and the
  argument loop leaves in \<open>k\<close> and \<open>n\<close> the values of the last \<open>-k\<close> and \<open>-n\<close>.
\<close>

lemma uint16_of_int: "0 \<le> l \<Longrightarrow> l \<le> 65535 \<Longrightarrow> uint (of_int l :: uint16) = l"
  by (simp add: uint_word_of_int_eq take_bit_int_eq_self)

lemma uint32_of_int: "0 \<le> l \<Longrightarrow> l \<le> 4294967295 \<Longrightarrow> uint (of_int l :: uint32) = l"
  by (simp add: uint_word_of_int_eq take_bit_int_eq_self)

lemma sint32_of_int: "0 \<le> l \<Longrightarrow> l \<le> 2147483647 \<Longrightarrow> uint (of_int l :: int32) = l"
  by (simp add: uint_word_of_int_eq take_bit_int_eq_self)

lemma main_arg_k:
  "main_arg a v0 = Inr v1 \<Longrightarrow>
     (case a of ArgK l \<Rightarrow> l \<le> UINT16_MAX \<and> k_var v1 = of_int l | _ \<Rightarrow> k_var v1 = k_var v0)"
  by (cases a) (auto simp add: store_uint16_def split: if_splits)

lemma main_arg_n:
  "main_arg a v0 = Inr v1 \<Longrightarrow>
     (case a of ArgN l \<Rightarrow> l \<le> UINT16_MAX \<and> n_var v1 = of_int l \<and> nflag v1
              | _ \<Rightarrow> n_var v1 = n_var v0 \<and> nflag v1 = nflag v0)"
  by (cases a) (auto simp add: store_uint16_def split: if_splits)

lemma main_loop_k:
  "main_loop args v0 = Inr v \<Longrightarrow>
     (case last_k args of Some l \<Rightarrow> l \<le> UINT16_MAX \<and> k_var v = of_int l
                        | None \<Rightarrow> k_var v = k_var v0)"
proof (induction args arbitrary: v0)
  case Nil
  then show ?case by simp
next
  case (Cons a as)
  from Cons.prems obtain v1 where a: "main_arg a v0 = Inr v1" and r: "main_loop as v1 = Inr v"
    by (auto split: sum.splits)
  from Cons.IH [OF r] main_arg_k [OF a] show ?case
    by (auto split: option.splits arg.splits)
qed

lemma main_loop_n:
  "main_loop args v0 = Inr v \<Longrightarrow>
     (case last_n args of Some l \<Rightarrow> l \<le> UINT16_MAX \<and> n_var v = of_int l \<and> nflag v
                        | None \<Rightarrow> n_var v = n_var v0 \<and> nflag v = nflag v0)"
proof (induction args arbitrary: v0)
  case Nil
  then show ?case by simp
next
  case (Cons a as)
  from Cons.prems obtain v1 where a: "main_arg a v0 = Inr v1" and r: "main_loop as v1 = Inr v"
    by (auto split: sum.splits)
  from Cons.IH [OF r] main_arg_n [OF a] show ?case
    by (auto split: option.splits arg.splits)
qed


lemma u16_less:
  assumes "0 \<le> a" "a \<le> 65535" "0 \<le> b" "b \<le> 65535"
  shows "((of_int a :: uint16) < of_int b) = (a < b)"
  using assms by (simp add: word_less_def uint16_of_int)

lemma u16_less_2:
  assumes "0 \<le> a" "a \<le> 65535"
  shows "((of_int a :: uint16) < 2) = (a < 2)"
  using u16_less [OF assms, of 2] by simp

lemma u32_nonzero:
  assumes "1 \<le> l" "l \<le> 4294967295"
  shows "(of_int l :: uint32) \<noteq> 0"
proof
  assume "(of_int l :: uint32) = 0"
  then have "uint (of_int l :: uint32) = 0" by simp
  with uint32_of_int [of l] assms show False by simp
qed

lemma s32_nonzero:
  assumes "1 \<le> l" "l \<le> 2147483647"
  shows "(of_int l :: int32) \<noteq> 0"
proof
  assume "(of_int l :: int32) = 0"
  then have "uint (of_int l :: int32) = 0" by simp
  with sint32_of_int [of l] assms show False by simp
qed

lemma main_checks_stored:
  "(k_var v < 2 \<or> k_var v > (if \<not> nflag v then of_int filecount else n_var v)
      \<longrightarrow> (\<exists>e. main_checks v filecount = Inl e)) \<and>
   (dflag v \<and> \<not> rflag v \<and> secretflag v \<and> kflag v \<and> width_var v \<noteq> 0 \<and> height_var v \<noteq> 0 \<and>
    2 \<le> k_var v \<and> k_var v \<le> (if \<not> nflag v then of_int filecount else n_var v)
      \<longrightarrow> main_checks v filecount =
            Inr (Distribute (k_var v) (if \<not> nflag v then of_int filecount else n_var v)
                   (seed_var v)))"
proof (intro conjI impI)
  assume "k_var v < 2 \<or> k_var v > (if \<not> nflag v then of_int filecount else n_var v)"
  then show "\<exists>e. main_checks v filecount = Inl e"
    by (auto simp add: main_checks_def Let_def)
next
  let ?n = "if \<not> nflag v then of_int filecount else n_var v"
  assume a: "dflag v \<and> \<not> rflag v \<and> secretflag v \<and> kflag v \<and> width_var v \<noteq> 0 \<and>
             height_var v \<noteq> 0 \<and> 2 \<le> k_var v \<and> k_var v \<le> ?n"
  then have "2 \<le> ?n" by (meson order_trans)
  with a show "main_checks v filecount = Inr (Distribute (k_var v) ?n (seed_var v))"
    by (auto simp add: main_checks_def Let_def not_less)
qed

lemma main_rejects:
  assumes lk: "last_k args = Some k" and k0: "0 \<le> k"
      and n: "n = parsed_n args filecount" and n0: "0 \<le> n"
      and fc: "last_n args = None \<longrightarrow> filecount \<le> 65535"
      and bad: "k < 2 \<or> n < k \<or> 65535 < n"
  shows "\<exists>e. main args filecount = Inl e"
proof (cases "main_loop args main_init")
  case (Inl e)
  then show ?thesis by (simp add: main_def)
next
  case (Inr v)
  from main_loop_k [OF Inr] lk have k: "k \<le> 65535" "k_var v = of_int k"
    by (simp_all add: UINT16_MAX_def)
  have st: "n \<le> 65535 \<and> (if \<not> nflag v then of_int filecount else n_var v) = (of_int n :: uint16)"
  proof (cases "last_n args")
    case None
    with main_loop_n [OF Inr] have "\<not> nflag v" by (simp add: main_init_def)
    with None n fc show ?thesis by (simp add: parsed_n_def)
  next
    case (Some l)
    with main_loop_n [OF Inr] n show ?thesis by (simp add: parsed_n_def UINT16_MAX_def)
  qed
  with bad have "k < 2 \<or> n < k" by auto
  then have "k_var v < 2 \<or> k_var v > (if \<not> nflag v then of_int filecount else n_var v)"
    using st k k0 n0 by (simp add: u16_less u16_less_2)
  with main_checks_stored [of v filecount] Inr show ?thesis
    by (simp add: main_def)
qed

lemma main_loop_d:
  assumes "k \<le> 65535" "n \<le> 65535" "w \<le> 2147483647" "0 \<le> h" "h \<le> 2147483647"
  shows "main_loop [ArgD, ArgSecret, ArgK k, ArgN n, ArgW w, ArgH h] main_init =
           Inr \<lparr> dflag = True, rflag = False, kflag = True, wflag = True, hflag = True,
                 nflag = True, secretflag = True, seed_var = 691, k_var = of_int k,
                 n_var = of_int n, width_var = of_int w, height_var = of_int h \<rparr>"
    and "main_loop [ArgD, ArgSecret, ArgK k, ArgW w, ArgH h] main_init =
           Inr \<lparr> dflag = True, rflag = False, kflag = True, wflag = True, hflag = True,
                 nflag = False, secretflag = True, seed_var = 691, k_var = of_int k,
                 n_var = 0, width_var = of_int w, height_var = of_int h \<rparr>"
  using assms
  by (simp_all add: main_init_def store_uint16_def UINT16_MAX_def UINT32_MAX_def
        INT32_MAX_def INT32_MIN_def)

lemma main_accepts:
  assumes k: "2 \<le> k" "k \<le> n" and n: "n \<le> 65535"
      and w: "1 \<le> w" "w \<le> 2147483647" and h: "1 \<le> h" "h \<le> 2147483647"
  shows "main [ArgD, ArgSecret, ArgK k, ArgN n, ArgW w, ArgH h] filecount =
           Inr (Distribute (of_int k) (of_int n) 691)"
    and "main [ArgD, ArgSecret, ArgK k, ArgW w, ArgH h] n =
           Inr (Distribute (of_int k) (of_int n) 691)"
proof -
  have kk: "0 \<le> k" "k \<le> 65535" "0 \<le> n" using k n by simp_all
  have c: "\<not> (of_int n :: uint16) < of_int k" "\<not> (of_int k :: uint16) < 2"
          "\<not> (of_int n :: uint16) < 2"
    using k n kk by (simp_all add: u16_less u16_less_2)
  have nz: "(of_int w :: uint32) \<noteq> 0" "(of_int h :: int32) \<noteq> 0"
    using w h by (simp_all add: u32_nonzero s32_nonzero)
  have hh: "0 \<le> h" using h by simp
  show "main [ArgD, ArgSecret, ArgK k, ArgN n, ArgW w, ArgH h] filecount =
           Inr (Distribute (of_int k) (of_int n) 691)"
    using c nz
    by (simp only: main_def main_loop_d(1) [OF kk(2) n w(2) hh h(2)] sum.case)
       (simp add: main_checks_def Let_def)
  show "main [ArgD, ArgSecret, ArgK k, ArgW w, ArgH h] n =
           Inr (Distribute (of_int k) (of_int n) 691)"
    using c nz
    by (simp only: main_def main_loop_d(2) [OF kk(2) n w(2) hh h(2)] sum.case)
       (simp add: main_checks_def Let_def)
qed


text \<open>
  A negative option value passes the guard \<open>l <= UINT16_MAX\<close> and is stored
  modulo \<open>2 ^ 16\<close>: \<open>-k -65534\<close> is taken as \<open>k = 2\<close>, and \<open>-n -1\<close> as \<open>n = 65535\<close>.
  The same holds for a file count above 65535. The statements below are about
  values from 0 on.
\<close>

lemma main_negative_values:
  "main [ArgD, ArgSecret, ArgK (- 65534), ArgN 2, ArgW 4, ArgH 4] 0 = Inr (Distribute 2 2 691)"
  "main [ArgD, ArgSecret, ArgK 2, ArgN (- 1), ArgW 4, ArgH 4] 0 = Inr (Distribute 2 65535 691)"
  "\<exists>e. main [ArgD, ArgSecret, ArgK 3, ArgW 4, ArgH 4] 65538 = Inl e"
  by (simp_all add: main_def main_checks_def main_init_def store_uint16_def UINT16_MAX_def
        UINT32_MAX_def INT32_MAX_def INT32_MIN_def)

lemma main_loop_n251:
  "main_loop [ArgD, ArgSecret, ArgK 2, ArgN 251, ArgW 4, ArgH 4] main_init = Inr vars_n251"
  by (simp add: main_init_def vars_n251_def store_uint16_def UINT16_MAX_def UINT32_MAX_def
        INT32_MAX_def INT32_MIN_def)

text \<open>
  C9 (amended). Let \<open>k \<ge> 0\<close> be the value of the last \<open>-k\<close> option of a command line
  and \<open>n \<ge> 0\<close> the value of its last \<open>-n\<close> option or, without \<open>-n\<close>, the number of
  files in the directory (at most 65535). Whenever \<open>k < 2\<close> or \<open>k > n\<close>, and also
  whenever \<open>n > 65535\<close>, \<open>main\<close> ends in a fatal error before \<open>distributeimage\<close> or
  \<open>recoverimage\<close> is called. A share count \<open>250 < n \<le> 65535\<close> is not rejected: for
  every \<open>2 \<le> k \<le> n \<le> 65535\<close> and positive width and height (at most
  \<open>2147483647\<close>, the range that \<open>xstrtol\<close> accepts), the command lines
  \<open>-d --secret F -k k -n n -w W -h H\<close> and, in a directory of \<open>n\<close> files,
  \<open>-d --secret F -k k -w W -h H\<close> reach \<open>distributeimage\<close> with these \<open>k\<close> and \<open>n\<close>.
\<close>

theorem main_checks_k_n:
  "(last_k args = Some k \<and> 0 \<le> k \<and> 0 \<le> parsed_n args filecount \<and>
    (last_n args = None \<longrightarrow> filecount \<le> 65535) \<and>
    (k < 2 \<or> parsed_n args filecount < k \<or> 65535 < parsed_n args filecount)
      \<longrightarrow> (\<exists>e. main args filecount = Inl e)) \<and>
   (2 \<le> k' \<and> k' \<le> n' \<and> n' \<le> 65535 \<and> 1 \<le> w \<and> w \<le> 2147483647 \<and>
    1 \<le> h \<and> h \<le> 2147483647
      \<longrightarrow> main [ArgD, ArgSecret, ArgK k', ArgN n', ArgW w, ArgH h] filecount' =
            Inr (Distribute (of_int k') (of_int n') 691) \<and>
          main [ArgD, ArgSecret, ArgK k', ArgW w, ArgH h] n' =
            Inr (Distribute (of_int k') (of_int n') 691))"
proof (intro conjI impI)
  assume "last_k args = Some k \<and> 0 \<le> k \<and> 0 \<le> parsed_n args filecount \<and>
    (last_n args = None \<longrightarrow> filecount \<le> 65535) \<and>
    (k < 2 \<or> parsed_n args filecount < k \<or> 65535 < parsed_n args filecount)"
  then show "\<exists>e. main args filecount = Inl e"
    by (intro main_rejects [where k = k and n = "parsed_n args filecount"]) simp_all
next
  assume a: "2 \<le> k' \<and> k' \<le> n' \<and> n' \<le> 65535 \<and> 1 \<le> w \<and> w \<le> 2147483647 \<and>
    1 \<le> h \<and> h \<le> 2147483647"
  then show "main [ArgD, ArgSecret, ArgK k', ArgN n', ArgW w, ArgH h] filecount' =
            Inr (Distribute (of_int k') (of_int n') 691)"
    by (intro main_accepts) simp_all
  from a show "main [ArgD, ArgSecret, ArgK k', ArgW w, ArgH h] n' =
            Inr (Distribute (of_int k') (of_int n') 691)"
    by (intro main_accepts) simp_all
qed

theorem main_checks_k_n_witness:
  "last_k [ArgD, ArgSecret, ArgK 1, ArgN 251, ArgW 4, ArgH 4] = Some 1 \<and>
   last_n [ArgD, ArgSecret, ArgK 1, ArgN 251, ArgW 4, ArgH 4] = Some 251 \<and>
   parsed_n [ArgD, ArgSecret, ArgK 1, ArgN 251, ArgW 4, ArgH 4] 0 = 251 \<and>
   (\<exists>e. main [ArgD, ArgSecret, ArgK 1, ArgN 251, ArgW 4, ArgH 4] 0 = Inl e) \<and>
   main [ArgD, ArgSecret, ArgK 2, ArgN 251, ArgW 4, ArgH 4] 0 = Inr (Distribute 2 251 691) \<and>
   main [ArgD, ArgSecret, ArgK 2, ArgW 4, ArgH 4] 251 = Inr (Distribute 2 251 691)"
proof -
  let ?args = "[ArgD, ArgSecret, ArgK 1, ArgN 251, ArgW 4, ArgH 4]"
  have lk: "last_k ?args = Some 1" by simp
  have ln: "last_n ?args = Some 251" by simp
  have pn: "parsed_n ?args 0 = 251" by (simp add: parsed_n_def)
  note t = main_checks_k_n [where args = ?args and k = 1 and filecount = 0 and k' = 2
             and n' = 251 and w = 4 and h = 4 and filecount' = 0]
  from t lk ln pn have r: "\<exists>e. main ?args 0 = Inl e" by simp
  from t have "main [ArgD, ArgSecret, ArgK 2, ArgN 251, ArgW 4, ArgH 4] 0 = Inr (Distribute 2 251 691)"
    and "main [ArgD, ArgSecret, ArgK 2, ArgW 4, ArgH 4] 251 = Inr (Distribute 2 251 691)"
    by simp_all
  with lk ln pn r show ?thesis by simp
qed
section \<open>Polynomial evaluation and shadow formation\<close>

lemma gp_values:
  "generatepixel [10, 20] 1 1 = Inr 30" "generatepixel [30, 40] 1 1 = Inr 70"
  "generatepixel [10, 20] 1 2 = Inr 50" "generatepixel [30, 40] 1 2 = Inr 110"
  by (simp_all add: generatepixel_def generatepixel_loop.simps accumulate_def PRIME_def)

lemma gp_250: "generatepixel [0, 0, 0, 0, 0, 0, 0, 0, 1] 8 250 = Inl ConversionUndefined"
  by (simp add: generatepixel_def generatepixel_loop.simps accumulate_def PRIME_def)

lemma nth_coeff64: "i < 64 \<Longrightarrow> (replicate 63 0 @ 1 # replicate 512 (0::uint8)) ! i = (if i = 63 then 1 else 0)"
  by (auto simp add: nth_append)

lemma gp64_loop:
  "i \<le> 63 \<Longrightarrow> generatepixel_loop (replicate 63 0 @ 1 # replicate 512 0) 63 2 i 0 = Inl ConversionUndefined"
proof (induction "63 - i" arbitrary: i)
  case 0
  then have i: "i = 63" by simp
  show ?case 
    by (subst generatepixel_loop.simps) (simp add: i nth_coeff64 accumulate_def)
next
  case (Suc d)
  then have i: "i < 63" by simp
  have p: "(2::int) ^ i < 2 ^ 1023" using i by (intro power_strict_increasing) simp_all
  have "generatepixel_loop (replicate 63 0 @ 1 # replicate 512 0) 63 2 i 0
        = generatepixel_loop (replicate 63 0 @ 1 # replicate 512 0) 63 2 (i + 1) 0"
    using i p by (subst generatepixel_loop.simps) (simp add: nth_coeff64 accumulate_def)
  also have "\<dots> = Inl ConversionUndefined" using Suc i by (intro Suc(1)) simp_all
  finally show ?case .
qed

lemma gp64_loop1:
  "i \<le> 64 \<Longrightarrow> generatepixel_loop (replicate 63 0 @ 1 # replicate 512 0) 63 1 i (if i \<le> 63 then 0 else 1) = Inr 1"
proof (induction "64 - i" arbitrary: i)
  case 0
  then have i: "i = 64" by simp
  show ?case 
    by (subst generatepixel_loop.simps) (simp add: i)
next
  case (Suc d)
  then have i: "i < 64" by simp
  have "generatepixel_loop (replicate 63 0 @ 1 # replicate 512 0) 63 1 i 0
        = generatepixel_loop (replicate 63 0 @ 1 # replicate 512 0) 63 1 (i + 1) (if i + 1 \<le> 63 then 0 else 1)"
    using i by (subst generatepixel_loop.simps) (simp add: nth_coeff64 accumulate_def)
  also have "\<dots> = Inr 1" using Suc i by (intro Suc(1)) simp_all
  finally show ?case using i by simp
qed

lemma gp64_2: "generatepixel (replicate 63 0 @ 1 # replicate 512 0) 63 2 = Inl ConversionUndefined"
  using gp64_loop [of 0] by (simp add: generatepixel_def)

lemma gp64_1: "generatepixel (replicate 63 0 @ 1 # replicate 512 0) 63 1 = Inr 1"
  using gp64_loop1 [of 0] by (simp add: generatepixel_def PRIME_def smod_nonneg)

lemma generatepixel_loop_exact:
  "i \<le> degree + 1 \<Longrightarrow> degree < length coeff \<Longrightarrow> 0 \<le> ret \<Longrightarrow>
   ret + (\<Sum>t = i..degree. uint (coeff ! t) * int val ^ t) < 2 ^ 53 \<Longrightarrow>
   int val ^ degree < 2 ^ 1023 \<Longrightarrow>
   generatepixel_loop coeff degree val i ret =
     Inr (ret + (\<Sum>t = i..degree. uint (coeff ! t) * int val ^ t))"
proof (induction coeff degree val i ret rule: generatepixel_loop.induct)
  case (1 coeff degree val i ret)
  show ?case
  proof (cases "i \<le> degree")
    case False
    with 1(2) have "i = degree + 1" by simp
    then show ?thesis by (subst generatepixel_loop.simps) simp
  next
    case True
    let ?c = "uint (coeff ! i)"
    let ?p = "int val ^ i"
    let ?rest = "\<Sum>t = i + 1..degree. uint (coeff ! t) * int val ^ t"
    have split: "(\<Sum>t = i..degree. uint (coeff ! t) * int val ^ t) = ?c * ?p + ?rest"
      using True by (simp add: sum.atLeast_Suc_atMost)
    have rest0: "0 \<le> ?rest" by (intro sum_nonneg) simp
    have cp0: "0 \<le> ?c * ?p" by simp
    have small: "ret + ?c * ?p < 2 ^ 53" using 1(5) split rest0 by simp
    have fin: "?p < 2 ^ 1023"
    proof (cases "val = 0")
      case True
      then show ?thesis by (cases "i = 0") (simp_all add: power_0_left)
    next
      case False
      then have "?p \<le> int val ^ degree" using True by (intro power_increasing) simp_all
      with 1(6) show ?thesis by simp
    qed
    have acc: "accumulate ret ?c ?p = Inr (ret + ?c * ?p)"
      using small fin by (simp add: accumulate_def)
    have len: "\<not> length coeff \<le> i" using True 1(3) by simp
    have "generatepixel_loop coeff degree val (i + 1) (ret + ?c * ?p) =
            Inr (ret + ?c * ?p + ?rest)"
    proof (rule 1(1) [OF True len acc])
      show "i + 1 \<le> degree + 1" using True by simp
      show "degree < length coeff" by (rule 1(3))
      show "0 \<le> ret + ?c * ?p" using 1(4) cp0 by simp
      show "ret + ?c * ?p + ?rest < 2 ^ 53" using 1(5) split by simp
      show "int val ^ degree < 2 ^ 1023" by (rule 1(6))
    qed
    then show ?thesis
      using True len acc split by (subst generatepixel_loop.simps) simp
  qed
qed

text \<open>
  Where the whole sum stays below \<open>2 ^ 53\<close> (and the powers are finite
  doubles), \<open>generatepixel\<close> is the polynomial value modulo 251, a byte in
  \<open>0..250\<close>.
\<close>

lemma generatepixel_exact:
  assumes "unat degree < length coeff"
      and "(\<Sum>t = 0..unat degree. uint (coeff ! t) * int (unat val) ^ t) < 2 ^ 53"
      and "int (unat val) ^ unat degree < 2 ^ 1023"
  shows "generatepixel coeff degree val =
           Inr (of_int ((\<Sum>t = 0..unat degree. uint (coeff ! t) * int (unat val) ^ t) mod 251))"
proof -
  let ?s = "\<Sum>t = 0..unat degree. uint (coeff ! t) * int (unat val) ^ t"
  have "generatepixel_loop coeff (unat degree) (unat val) 0 0 = Inr (0 + ?s)"
    using assms by (intro generatepixel_loop_exact) simp_all
  moreover have "0 \<le> ?s" by (intro sum_nonneg) simp
  ultimately show ?thesis
    by (simp add: generatepixel_def PRIME_def smod_nonneg)
qed

text \<open>
  C3 (evaluation of the code where it departs from the claim). For the
  coefficients \<open>0, 0, 0, 0, 0, 0, 0, 0, 1\<close> (degree 8) and \<open>x = 250\<close> the last step
  adds \<open>1 * pow(250, 8)\<close>, more than \<open>2 ^ 63\<close>, to \<open>ret\<close> and converts the sum to
  \<open>intmax_t\<close>: the conversion is undefined, and no polynomial value modulo 251
  (it would be 1) is returned. The same happens for 63 zero coefficients
  followed by 1 (degree 63) at \<open>x = 2\<close>. The four values named in the claim are
  as stated.
\<close>

theorem generatepixel_conversion_undefined:
  "generatepixel [0, 0, 0, 0, 0, 0, 0, 0, 1] 8 250 = Inl ConversionUndefined \<and>
   generatepixel (replicate 63 0 @ 1 # replicate 512 0) 63 2 = Inl ConversionUndefined \<and>
   generatepixel [10, 20] 1 1 = Inr 30 \<and> generatepixel [30, 40] 1 1 = Inr 70 \<and>
   generatepixel [10, 20] 1 2 = Inr 50 \<and> generatepixel [30, 40] 1 2 = Inr 110"
  by (simp add: gp_250 gp64_2 gp_values)

lemma dims9: "findclosestpair_loop 9 (floor_sqrt 9) = Some (3, 3)"
  by code_simp

lemma secret64_size: "bmpimagesize secret64 = 576"
  by (simp add: secret64_def newbitmaphelper_def bmpimagesize_def
       PIXEL_ARRAY_OFFSET_def BMP_HEADER_SIZE_def DIB_HEADER_SIZE_def PALETTE_SIZE_def)

lemma trunc64: "truncategrayscale secret64 = Inr secret64"
proof -
  let ?px = "replicate 63 0 @ 1 # replicate 512 (0::uint8)"
  have "map (\<lambda>p. if p > 250 then 250 else p) ?px = ?px"
    by (rule map_idI) auto
  moreover have "imgpixels secret64 = ?px" by (simp add: secret64_def)
  moreover have "secret64\<lparr>imgpixels := imgpixels secret64\<rparr> = secret64" by simp
  ultimately show ?thesis
    by (simp add: truncategrayscale_def secret64_size Let_def)
qed

lemma pixel64:
  assumes "2 \<le> n" "length shadows = n" "0 < length (imgpixels (shadows ! 0))"
  shows "formshadows_pixel shadows (replicate 63 0 @ 1 # replicate 512 0) 64 0 0 n = Inl ConversionUndefined"
proof -
  let ?c = "replicate 63 0 @ 1 # replicate 512 (0::uint8)"
  let ?s1 = "shadows[0 := (shadows ! 0)\<lparr>imgpixels := (imgpixels (shadows ! 0))[0 := 1]\<rparr>]"
  have "formshadows_pixel shadows ?c 64 0 0 n = formshadows_pixel ?s1 ?c 64 0 1 n"
    using assms gp64_1 by (subst formshadows_pixel.simps) simp
  also have "\<dots> = Inl ConversionUndefined"
    using assms gp64_2 by (subst formshadows_pixel.simps) simp
  finally show ?thesis .
qed

lemma formshadows64: "formshadows secret64 64 64 691 = Inl ConversionUndefined"
proof -
  let ?sh = "map (\<lambda>i. newshadow 3 3 691 (of_nat (i + 1))) [0..<64]"
  have fc: "findclosestpair 9 None = Some (3, 3)"
    by (simp add: findclosestpair_def dims9)
  have "formshadows_pixel ?sh (replicate 63 0 @ 1 # replicate 512 0) 64 0 0 64 = Inl ConversionUndefined"
    by (rule pixel64) (simp_all add: newshadow_def newbitmaphelper_def)
  then have "formshadows_loop ?sh (imgpixels secret64) 64 0 64 576 = Inl ConversionUndefined"
    by (subst formshadows_loop.simps) (simp add: secret64_def)
  then show ?thesis
    by (simp add: formshadows_def secret64_size fc Let_def)
qed

section \<open>Revealing the secret: examples\<close>

lemmas fc_simps = echelon.simps echelon_rows.simps echelon_cols.simps reduce.simps reduce_rows.simps
  findcoefficients_def elim_factor_def elim_entry_def scale_entry_def modinv_at_def c_int_def
  INT_MAX_def INT_MIN_def mat_set_def PRIME_def Let_def smod_nonneg mod_util_eq

lemma modinv_small: "modinv ! 0 = 0" "modinv ! 1 = 1" "modinv ! Suc 0 = 1" "modinv ! 2 = 126"
  by (simp_all add: modinv_def)

lemma fc1: "findcoefficients [[1, 1, 30], [1, 2, 50]] 2 = Inr [[1, 0, 10], [0, 1, 20]]"
  by (simp add: fc_simps modinv_small)


lemma fc2: "findcoefficients [[1, 1, 70], [1, 2, 110]] 2 = Inr [[1, 0, 30], [0, 1, 40]]"
  by (simp add: fc_simps modinv_small)

lemma replicate_2_3: "replicate 2 x = [x, x]" "replicate 3 x = [x, x, x]" "replicate 4 x = [x, x, x, x]"
  by (simp_all add: numeral_2_eq_2 numeral_3_eq_3 numeral_Bit0)

lemma row_a: "matrix_row shadow_a r 0 2 = Inr ((r[0 := 1])[1 := 1, 2 := 30])"
  "matrix_row shadow_a r (Suc 0) 2 = Inr ((r[0 := 1])[1 := 1, 2 := 70])"
  by (simp_all add: matrix_row_def shadow_a_def newshadow_def newbitmaphelper_def powers_row.simps
        c_int_def INT_MAX_def INT_MIN_def Let_def)

lemma row_b: "matrix_row shadow_b r 0 2 = Inr ((r[0 := 1])[1 := 2, 2 := 50])"
  "matrix_row shadow_b r (Suc 0) 2 = Inr ((r[0 := 1])[1 := 2, 2 := 110])"
  by (simp_all add: matrix_row_def shadow_b_def newshadow_def newbitmaphelper_def powers_row.simps
        c_int_def INT_MAX_def INT_MIN_def Let_def)

lemma bm0: "build_matrix [shadow_a, shadow_b] [[a, b, c], [d, e, f]] 0 0 2 = Inr [[1, 1, 30], [1, 2, 50]]"
  by (simp add: build_matrix.simps row_a row_b)

lemma bm1: "build_matrix [shadow_a, shadow_b] [[a, b, c], [d, e, f]] (Suc 0) 0 2 = Inr [[1, 1, 70], [1, 2, 110]]"
  by (simp add: build_matrix.simps row_a row_b)

lemma wb0: "write_block [p0, p1, p2, p3] [[1, 0, 10], [0, 1, 20]] 0 2 2 = Inr [10, 20, p2, p3]"
  by (simp add: write_block.simps)

lemma wb1: "write_block [p0, p1, p2, p3] [[1, 0, 30], [0, 1, 40]] 2 4 2 = Inr [p0, p1, 30, 40]"
  by (simp add: write_block.simps)

lemma loop_ab: "revealsecret_loop [shadow_a, shadow_b] [0, 0, 0, 0] [[0, 0, 0], [0, 0, 0]] 0 2 2 = Inr [10, 20, 30, 40]"
  by (simp add: revealsecret_loop.simps bm0 bm1 fc1 fc2 wb0 wb1)

lemma reveal_ab: "map_sum id imgpixels (revealsecret [shadow_a, shadow_b] 4 1 2) = Inr [10, 20, 30, 40]"
proof -
  have "calculatepixelarraysize 4 1 = 4"
    by (simp add: calculatepixelarraysize_def BITS_PER_PIXEL_def)
  moreover have "pixelarraysize (dibheader shadow_a) = 2"
    by (simp add: shadow_a_def newshadow_def newbitmaphelper_def)
  ultimately show ?thesis 
    using loop_ab
    by (simp add: revealsecret_def newbitmap_def newbitmaphelper_def Let_def replicate_2_3)
qed


text \<open>
  C1 (evaluation of the code where it departs from the claim). The secret
  \<open>secret64\<close> has 576 pixel bytes, all at most 250, and \<open>k = n = 64\<close> divides 576.
  Shadow 2 of its first block is \<open>generatepixel\<close> at degree 63 and \<open>x = 2\<close>, whose
  conversion to \<open>intmax_t\<close> is undefined: \<open>formshadows\<close> yields no shadows from
  which \<open>revealsecret\<close> could return the truncated secret. (On the 4-pixel
  secret of the spec's first scenario \<open>formshadows\<close> allocates its shadows with
  \<open>width\<close> and \<open>height\<close> that were never assigned; from the shadows
  \<open>[30, 70]\<close> and \<open>[50, 110]\<close> themselves \<open>revealsecret\<close> does return
  \<open>[10, 20, 30, 40]\<close>.)
\<close>

theorem formshadows_revealsecret_undefined:
  "truncategrayscale secret64 = Inr secret64 \<and> bmpimagesize secret64 = 576 \<and>
   (case truncategrayscale secret64 of
      Inl e \<Rightarrow> Inl e
    | Inr B \<Rightarrow>
        (case formshadows B 64 64 691 of
           Inl e \<Rightarrow> Inl e
         | Inr shadows \<Rightarrow> revealsecret (take 64 shadows) 576 1 64)) = Inl ConversionUndefined \<and>
   formshadows ((newbitmaphelper 4 1 0 0 4)\<lparr>imgpixels := [10, 20, 30, 40]\<rparr>) 2 2 691
     = Inl Uninitialised \<and>
   map_sum id imgpixels (revealsecret [shadow_a, shadow_b] 4 1 2) = Inr [10, 20, 30, 40]"
proof -
  have "findclosestpair_loop 2 (floor_sqrt 2) = None" by code_simp
  then have "formshadows ((newbitmaphelper 4 1 0 0 4)\<lparr>imgpixels := [10, 20, 30, 40]\<rparr>) 2 2 691
               = Inl Uninitialised"
    by (simp add: formshadows_def findclosestpair_def newbitmaphelper_def bmpimagesize_def
          PIXEL_ARRAY_OFFSET_def BMP_HEADER_SIZE_def DIB_HEADER_SIZE_def PALETTE_SIZE_def Let_def)
  then show ?thesis
    by (simp add: trunc64 secret64_size formshadows64 reveal_ab)
qed

section \<open>Correctness of the Gauss-Jordan elimination\<close>

subsection \<open>Arithmetic modulo 251\<close>

lemma inv251_range: "0 \<le> inv251 v \<and> inv251 v \<le> 255"
proof -
  have "uint (modinv ! nat v) < 2 ^ LENGTH(8)" by (rule uint_bounded)
  then show ?thesis by (simp add: inv251_def)
qed

lemma inv251_mult:
  assumes "1 \<le> v" and "v \<le> 250"
  shows "(v * inv251 v) mod 251 = 1"
proof -
  from assms have "nat v \<in> set [1..<251]" by auto
  with modinv_all have "(int (nat v) * uint (modinv ! nat v)) mod 251 = 1"
    unfolding list_all_iff by blast
  with assms show ?thesis by (simp add: inv251_def)
qed

lemma modinv_at_ok: "in_range v \<Longrightarrow> modinv_at v = Inr (inv251 v)"
  by (simp add: modinv_at_def in_range_def inv251_def PRIME_def)

lemma in_range_mod [simp]: "in_range (a mod 251)"
  by (simp add: in_range_def)

lemma in_range_mod_id: "in_range v \<Longrightarrow> v mod 251 = v"
  by (simp add: in_range_def)

lemma nonzero_mod_range: "(v::int) mod 251 \<noteq> 0 \<Longrightarrow> 1 \<le> v mod 251 \<and> v mod 251 \<le> 250"
proof -
  assume "v mod 251 \<noteq> 0"
  moreover have "0 \<le> v mod 251" "v mod 251 < 251" by simp_all
  ultimately show ?thesis by linarith
qed

lemma inv251_cancel:
  assumes "u mod 251 \<noteq> 0"
  shows "(u * inv251 (u mod 251)) mod 251 = 1"
proof -
  from nonzero_mod_range [OF assms] have "(u mod 251 * inv251 (u mod 251)) mod 251 = 1"
    by (intro inv251_mult) simp_all
  then show ?thesis by (simp add: mod_mult_left_eq)
qed

lemma mult_nonzero_mod:
  assumes u: "u mod 251 \<noteq> 0" and v: "v mod 251 \<noteq> 0"
  shows "(u * v) mod 251 \<noteq> (0::int)"
proof
  assume z: "(u * v) mod 251 = 0"
  let ?w = "inv251 (u mod 251)"
  have "v mod 251 = (1 * v) mod 251" by simp
  also have "\<dots> = ((u * ?w) mod 251 * v) mod 251"
    using inv251_cancel [OF u] by simp
  also have "\<dots> = (u * ?w * v) mod 251" by (simp add: mod_mult_left_eq)
  also have "\<dots> = (?w * (u * v)) mod 251" by (simp add: mult.assoc mult.left_commute mult.commute)
  also have "\<dots> = (?w * ((u * v) mod 251)) mod 251" by (simp add: mod_mult_right_eq)
  also have "\<dots> = 0" using z by simp
  finally show False using v by simp
qed

subsection \<open>The arithmetic steps of \<open>findcoefficients\<close> within range\<close>

lemma c_int_ok: "- 2147483648 \<le> x \<Longrightarrow> x \<le> 2147483647 \<Longrightarrow> c_int x = Inr x"
  by (simp add: c_int_def INT_MIN_def INT_MAX_def)

lemma elim_factor_ok:
  assumes "in_range x" and "in_range y"
  shows "elim_factor x y = Inr (x * inv251 y)" and "0 \<le> x * inv251 y" and "x * inv251 y \<le> 63750"
proof -
  from inv251_range [of y] have i: "0 \<le> inv251 y" "inv251 y \<le> 255" by simp_all
  from assms(1) have x: "0 \<le> x" "x \<le> 250" by (simp_all add: in_range_def)
  show nn: "0 \<le> x * inv251 y" using x i by simp
  have "x * inv251 y \<le> 250 * 255" using x i by (intro mult_mono) simp_all
  then show le: "x * inv251 y \<le> 63750" by simp
  from nn le have "c_int (x * inv251 y) = Inr (x * inv251 y)" by (intro c_int_ok) simp_all
  then show "elim_factor x y = Inr (x * inv251 y)"
    using assms(2) by (simp add: elim_factor_def modinv_at_ok)
qed

lemma elim_entry_ok:
  assumes "in_range x" and "in_range y" and "0 \<le> a" and "a \<le> 63750"
  shows "elim_entry x y a = Inr ((x - y * a) mod 251)"
proof -
  from assms(1) have x: "0 \<le> x" "x \<le> 250" by (simp_all add: in_range_def)
  from assms(2) have y: "0 \<le> y" "y \<le> 250" by (simp_all add: in_range_def)
  have nn: "0 \<le> y * a" using y assms(3) by simp
  have "y * a \<le> 250 * 63750" using y assms(3,4) by (intro mult_mono) simp_all
  with nn have c1: "c_int (y * a) = Inr (y * a)" by (intro c_int_ok) simp_all
  have sm: "(y * a) smod 251 = (y * a) mod 251" using nn by (intro smod_nonneg) simp_all
  have "0 \<le> (y * a) mod 251" "(y * a) mod 251 < 251" by simp_all
  with x have c2: "c_int (x - (y * a) mod 251) = Inr (x - (y * a) mod 251)"
    by (intro c_int_ok) simp_all
  have "mod_util (x - (y * a) mod 251) 251 = (x - (y * a) mod 251) mod 251"
    by (intro mod_util_eq) simp
  also have "\<dots> = (x - y * a) mod 251" by (simp add: mod_diff_right_eq)
  finally show ?thesis by (simp add: elim_entry_def c1 sm c2 PRIME_def)
qed

lemma scale_entry_ok:
  assumes "in_range x" and "in_range d"
  shows "scale_entry x d = Inr ((x * inv251 d) mod 251)"
proof -
  from elim_factor_ok [OF assms] have nn: "0 \<le> x * inv251 d" and le: "x * inv251 d \<le> 63750"
    by simp_all
  then have c: "c_int (x * inv251 d) = Inr (x * inv251 d)" by (intro c_int_ok) simp_all
  have "(x * inv251 d) smod 251 = (x * inv251 d) mod 251" using nn by (intro smod_nonneg) simp_all
  then show ?thesis using assms(2) by (simp add: scale_entry_def modinv_at_ok c PRIME_def)
qed

lemma reduce_entry_ok:
  assumes "in_range x" and "in_range v" and "in_range m"
  shows "c_int (v * m) = Inr (v * m)"
    and "c_int (x - (v * m) smod PRIME) = Inr (x - (v * m) mod 251)"
    and "mod_util (x - (v * m) mod 251) PRIME = (x - v * m) mod 251"
proof -
  from assms have x: "0 \<le> x" "x \<le> 250" and v: "0 \<le> v" "v \<le> 250" and m: "0 \<le> m" "m \<le> 250"
    by (simp_all add: in_range_def)
  have nn: "0 \<le> v * m" using v m by simp
  have "v * m \<le> 250 * 250" using v m by (intro mult_mono) simp_all
  with nn show "c_int (v * m) = Inr (v * m)" by (intro c_int_ok) simp_all
  have sm: "(v * m) smod 251 = (v * m) mod 251" using nn by (intro smod_nonneg) simp_all
  have "0 \<le> (v * m) mod 251" "(v * m) mod 251 < 251" by simp_all
  with x have "c_int (x - (v * m) mod 251) = Inr (x - (v * m) mod 251)"
    by (intro c_int_ok) simp_all
  with sm show "c_int (x - (v * m) smod PRIME) = Inr (x - (v * m) mod 251)"
    by (simp add: PRIME_def)
  have "mod_util (x - (v * m) mod 251) 251 = (x - (v * m) mod 251) mod 251"
    by (intro mod_util_eq) simp
  then show "mod_util (x - (v * m) mod 251) PRIME = (x - v * m) mod 251"
    by (simp add: mod_diff_right_eq PRIME_def)
qed

subsection \<open>Matrix updates\<close>

lemma mat_set_entry:
  "i < length M \<Longrightarrow> t < length (M ! i) \<Longrightarrow>
   mat_set M i t v ! r ! c = (if r = i \<and> c = t then v else M ! r ! c)"
  by (cases "r = i") (simp_all add: mat_set_def nth_list_update)

lemma wfmat_entry: "wfmat M n \<Longrightarrow> r < n \<Longrightarrow> c \<le> n \<Longrightarrow> in_range (M ! r ! c)"
  by (simp add: wfmat_def)

lemma wfmat_mat_set:
  assumes "wfmat M n" and "i < n" and "t \<le> n" and "in_range v"
  shows "wfmat (mat_set M i t v) n"
proof -
  from assms(1,2,3) have l: "i < length M" "t < length (M ! i)" by (simp_all add: wfmat_def)
  have "length (mat_set M i t v) = n" using assms(1) by (simp add: mat_set_def wfmat_def)
  moreover have "length (mat_set M i t v ! r) = n + 1" if "r < n" for r
    using that assms(1) l by (cases "r = i") (simp_all add: mat_set_def wfmat_def)
  moreover have "in_range (mat_set M i t v ! r ! c)" if "r < n" "c \<le> n" for r c
    using that assms(1,4) by (simp add: mat_set_entry [OF l] wfmat_def)
  ultimately show ?thesis by (simp add: wfmat_def)
qed

lemma mat_set_entry_wf:
  "wfmat M n \<Longrightarrow> i < n \<Longrightarrow> t \<le> n \<Longrightarrow>
   mat_set M i t v ! r ! c = (if r = i \<and> c = t then v else M ! r ! c)"
  by (intro mat_set_entry) (simp_all add: wfmat_def)

subsection \<open>Complete homogeneous symmetric polynomials\<close>

lemma hsym_snoc: "hsym (Suc d) (ys @ [y]) = hsym (Suc d) ys + y * hsym d (ys @ [y])"
proof (induction "Suc d" ys arbitrary: d rule: hsym.induct)
  case 2
  show ?case by (cases d) simp_all
next
  case (3 d x xs)
  show ?case
  proof (cases d)
    case 0
    with 3(1) show ?thesis by simp
  next
    case (Suc e)
    define A where "A = hsym d ((x # xs) @ [y])"
    define B where "B = hsym e ((x # xs) @ [y])"
    from 3(2) [OF Suc] have "A = hsym d (x # xs) + y * B"
      by (simp add: Suc A_def B_def)
    then have e2: "hsym d (x # xs) = A - y * B" by simp
    have "A = hsym d (xs @ [y]) + x * B"
      by (simp add: Suc A_def B_def)
    then have e1: "hsym d (xs @ [y]) = A - x * B" by simp
    from 3(1) have c: "hsym (Suc d) (xs @ [y]) = hsym (Suc d) xs + y * hsym d (xs @ [y])" .
    have "hsym (Suc d) ((x # xs) @ [y]) = hsym (Suc d) (xs @ [y]) + x * A"
      by (simp add: A_def)
    also have "\<dots> = hsym (Suc d) xs + y * (A - x * B) + x * A"
      by (simp only: c e1)
    also have "\<dots> = (hsym (Suc d) xs + x * (A - y * B)) + y * A"
      by (simp add: algebra_simps)
    also have "\<dots> = hsym (Suc d) (x # xs) + y * hsym d ((x # xs) @ [y])"
      by (simp only: hsym.simps e2 A_def [symmetric])
    finally show ?thesis .
  qed
qed

lemma hsym_diff:
  "hsym (Suc d) (ys @ [y]) - hsym (Suc d) (z # ys) = (y - z) * hsym d (z # ys @ [y])"
proof -
  have "hsym (Suc d) ((z # ys) @ [y]) = hsym (Suc d) (z # ys) + y * hsym d ((z # ys) @ [y])"
    by (rule hsym_snoc)
  moreover have "hsym (Suc d) ((z # ys) @ [y]) = hsym (Suc d) (ys @ [y]) + z * hsym d ((z # ys) @ [y])"
    by simp
  ultimately show ?thesis by (simp add: algebra_simps)
qed

lemma hsym_single: "hsym d [x] = x ^ d"
  by (induction d) simp_all

subsection \<open>Segments of the sample points\<close>

lemma seg_snoc:
  assumes "m \<le> r" and "r < length xs"
  shows "take (Suc m) (drop (r - m) xs) = take m (drop (r - m) xs) @ [xs ! r]"
proof -
  have "m < length (drop (r - m) xs)" using assms by simp
  then have "take (Suc m) (drop (r - m) xs) = take m (drop (r - m) xs) @ [drop (r - m) xs ! m]"
    by (rule take_Suc_conv_app_nth)
  moreover have "drop (r - m) xs ! m = xs ! r" using assms by simp
  ultimately show ?thesis by simp
qed

lemma seg_cons:
  assumes "m < r" and "r < length xs"
  shows "take (Suc m) (drop (r - Suc m) xs) = xs ! (r - Suc m) # take m (drop (r - m) xs)"
proof -
  from assms have "r - Suc m < length xs" by simp
  then have "drop (r - Suc m) xs = xs ! (r - Suc m) # drop (Suc (r - Suc m)) xs"
    by (rule Cons_nth_drop_Suc [symmetric])
  moreover from assms have "Suc (r - Suc m) = r - m" by simp
  ultimately show ?thesis by simp
qed

lemma seg_both:
  assumes "m < r" and "r < length xs"
  shows "take (Suc (Suc m)) (drop (r - Suc m) xs) =
           xs ! (r - Suc m) # take m (drop (r - m) xs) @ [xs ! r]"
proof -
  from assms have "r - Suc m < length xs" by simp
  then have "drop (r - Suc m) xs = xs ! (r - Suc m) # drop (Suc (r - Suc m)) xs"
    by (rule Cons_nth_drop_Suc [symmetric])
  moreover from assms have "Suc (r - Suc m) = r - m" by simp
  ultimately have "take (Suc (Suc m)) (drop (r - Suc m) xs) =
                     xs ! (r - Suc m) # take (Suc m) (drop (r - m) xs)" by simp
  moreover have "take (Suc m) (drop (r - m) xs) = take m (drop (r - m) xs) @ [xs ! r]"
    using assms by (intro seg_snoc) simp_all
  ultimately show ?thesis by simp
qed

subsection \<open>The closed form of the entries\<close>

lemma nev_0: "r < length xs \<Longrightarrow> nev xs 0 r c = xs ! r ^ c"
proof -
  assume r: "r < length xs"
  then have "take (Suc 0) (drop r xs) = [xs ! r]"
    by (simp add: take_Suc_conv_app_nth)
  then show ?thesis by (simp add: nev_def hsym_single)
qed

lemma nev_below: "c < m \<Longrightarrow> nev xs m r c = 0"
  by (simp add: nev_def)

lemma nev_diag: "nev xs m r m = wprod xs r m"
  by (simp add: nev_def)

text \<open>One elimination step: row \<open>r\<close> minus row \<open>r - 1\<close>, normalised by the pivots.\<close>

lemma nev_step:
  assumes "m < r" and "r < length xs" and "m \<le> c"
  shows "wprod xs r m * (hsym (c - m) (take (Suc m) (drop (r - m) xs))
                         - hsym (c - m) (take (Suc m) (drop (r - 1 - m) xs)))
         = nev xs (Suc m) r c"
proof (cases "c = m")
  case True
  then show ?thesis by (simp add: nev_def)
next
  case False
  with assms(3) obtain d where d: "c - m = Suc d" and d': "c - Suc m = d"
    by (metis Suc_diff_Suc diff_Suc_eq_diff_pred le_neq_implies_less)
  let ?ys = "take m (drop (r - m) xs)"
  have s1: "take (Suc m) (drop (r - m) xs) = ?ys @ [xs ! r]"
    using assms by (intro seg_snoc) simp_all
  have "r - 1 - m = r - Suc m" by simp
  then have s2: "take (Suc m) (drop (r - 1 - m) xs) = xs ! (r - Suc m) # ?ys"
    using seg_cons [OF assms(1,2)] by simp
  have s3: "take (Suc (Suc m)) (drop (r - Suc m) xs) = xs ! (r - Suc m) # ?ys @ [xs ! r]"
    using assms by (intro seg_both) simp_all
  have "hsym (Suc d) (?ys @ [xs ! r]) - hsym (Suc d) (xs ! (r - Suc m) # ?ys)
          = (xs ! r - xs ! (r - Suc m)) * hsym d (xs ! (r - Suc m) # ?ys @ [xs ! r])"
    by (rule hsym_diff)
  then have "wprod xs r m * (hsym (c - m) (take (Suc m) (drop (r - m) xs))
                         - hsym (c - m) (take (Suc m) (drop (r - 1 - m) xs)))
        = wprod xs r (Suc m) * hsym (c - Suc m) (take (Suc (Suc m)) (drop (r - Suc m) xs))"
    by (simp only: s1 s2 s3 d d' wprod.simps mult.assoc)
  moreover have "\<not> c < Suc m" using False assms(3) by simp
  ultimately show ?thesis by (simp add: nev_def)
qed

lemma wprod_nonzero:
  assumes "distinct xs" and "\<forall>x\<in>set xs. 1 \<le> x \<and> x \<le> 250" and "r < length xs"
  shows "m \<le> r \<Longrightarrow> wprod xs r m mod 251 \<noteq> 0"
proof (induction m)
  case 0
  show ?case by simp
next
  case (Suc m)
  then have IH: "wprod xs r m mod 251 \<noteq> 0" by simp
  let ?f = "xs ! r - xs ! (r - Suc m)"
  from Suc(2) assms(3) have l: "r - Suc m < length xs" and ne: "r - Suc m \<noteq> r" by simp_all
  with assms(1,3) have "xs ! r \<noteq> xs ! (r - Suc m)" by (simp add: nth_eq_iff_index_eq)
  moreover from assms(2,3) l have "1 \<le> xs ! r \<and> xs ! r \<le> 250"
    "1 \<le> xs ! (r - Suc m) \<and> xs ! (r - Suc m) \<le> 250" by simp_all
  ultimately have f: "?f \<noteq> 0" "- 251 < ?f" "?f < 251" by simp_all
  have "\<not> 251 dvd ?f"
  proof (cases "0 < ?f")
    case True
    with f(3) show ?thesis by (intro zdvd_not_zless) simp_all
  next
    case False
    with f(1,2) have "0 < - ?f" "- ?f < 251" by simp_all
    then have "\<not> 251 dvd - ?f" by (intro zdvd_not_zless) simp_all
    then show ?thesis by (metis dvd_minus_iff)
  qed
  then have "?f mod 251 \<noteq> 0" using mod_eq_0_iff_dvd [of ?f 251] by blast
  with IH show ?case by (simp add: mult_nonzero_mod)
qed

subsection \<open>The loops of the first phase\<close>

lemma echelon_cols_char:
  "wfmat M n \<Longrightarrow> 0 < i \<Longrightarrow> i < n \<Longrightarrow> t \<le> n + 1 \<Longrightarrow> 0 \<le> a \<Longrightarrow> a \<le> 63750 \<Longrightarrow>
   \<exists>M'. echelon_cols M i a t n = Inr M' \<and> wfmat M' n \<and>
        (\<forall>r<n. \<forall>c\<le>n. M' ! r ! c =
           (if r = i \<and> t \<le> c then (M ! i ! c - M ! (i - 1) ! c * a) mod 251 else M ! r ! c))"
proof (induction M i a t n rule: echelon_cols.induct)
  case (1 M i a t n)
  show ?case
  proof (cases "t < n + 1")
    case False
    with 1(5) have "t = n + 1" by simp
    with 1(2) show ?thesis by (subst echelon_cols.simps) simp
  next
    case True
    then have tn: "t \<le> n" by simp
    from 1(3,4) have i1: "i - 1 < n" by simp
    let ?v = "(M ! i ! t - M ! (i - 1) ! t * a) mod 251"
    let ?M1 = "mat_set M i t ?v"
    have ee: "elim_entry (M ! i ! t) (M ! (i - 1) ! t) a = Inr ?v"
      using 1(2,4,6,7) tn i1 by (intro elim_entry_ok wfmat_entry [of M n]) simp_all
    have wf1: "wfmat ?M1 n" using 1(2,4) tn by (intro wfmat_mat_set) simp_all
    have ent1: "?M1 ! r ! c = (if r = i \<and> c = t then ?v else M ! r ! c)" for r c
      using 1(2,4) tn by (rule mat_set_entry_wf)
    from 1(1) [OF True ee wf1 1(3,4) _ 1(6,7)] True
    obtain M' where M': "echelon_cols ?M1 i a (t + 1) n = Inr M'" and wf': "wfmat M' n"
      and ent': "\<forall>r<n. \<forall>c\<le>n. M' ! r ! c =
           (if r = i \<and> t + 1 \<le> c then (?M1 ! i ! c - ?M1 ! (i - 1) ! c * a) mod 251
            else ?M1 ! r ! c)"
      by auto
    have unf: "echelon_cols M i a t n = Inr M'"
      using True ee M' by (subst echelon_cols.simps) simp
    have "M' ! r ! c =
           (if r = i \<and> t \<le> c then (M ! i ! c - M ! (i - 1) ! c * a) mod 251 else M ! r ! c)"
      if "r < n" "c \<le> n" for r c
    proof -
      from that ent' have e: "M' ! r ! c =
           (if r = i \<and> t + 1 \<le> c then (?M1 ! i ! c - ?M1 ! (i - 1) ! c * a) mod 251
            else ?M1 ! r ! c)" by simp
      show ?thesis
      proof (cases "r = i \<and> t + 1 \<le> c")
        case True
        then have "c \<noteq> t" by simp
        then have a1: "?M1 ! i ! c = M ! i ! c" using ent1 [of i c] by simp
        from 1(3) have "i - 1 \<noteq> i" by simp
        then have a2: "?M1 ! (i - 1) ! c = M ! (i - 1) ! c" using ent1 [of "i - 1" c] by simp
        from e have "M' ! r ! c = (?M1 ! i ! c - ?M1 ! (i - 1) ! c * a) mod 251"
          by (simp only: if_P [OF True])
        with a1 a2 True show ?thesis by simp
      next
        case False
        from e have "M' ! r ! c = ?M1 ! r ! c" by (simp only: if_not_P [OF False])
        also have "\<dots> = (if r = i \<and> c = t then ?v else M ! r ! c)" by (rule ent1)
        finally show ?thesis using False by auto
      qed
    qed
    with unf wf' show ?thesis by blast
  qed
qed

subsection \<open>Row operations keep the solutions\<close>

lemma sum_mod_cong:
  assumes "\<And>c. c < n \<Longrightarrow> f c mod 251 = g c mod (251::int)"
  shows "(\<Sum>c<n. f c) mod 251 = (\<Sum>c<n. g c) mod 251"
proof -
  have "(\<Sum>c<n. f c) mod 251 = (\<Sum>c<n. f c mod 251) mod 251" by (simp add: mod_sum_eq)
  also have "(\<Sum>c<n. f c mod 251) = (\<Sum>c<n. g c mod 251)"
    using assms by (intro sum.cong) simp_all
  also have "(\<Sum>c<n. g c mod 251) mod 251 = (\<Sum>c<n. g c) mod 251" by (simp add: mod_sum_eq)
  finally show ?thesis .
qed

text \<open>
  Every row \<open>r\<close> of \<open>M'\<close> is row \<open>r\<close> of \<open>M\<close> minus \<open>a r\<close> times row \<open>s\<close> (modulo 251,
  in all \<open>n + 1\<close> columns), with \<open>a s = 0\<close>.
\<close>

lemma rowops_sat:
  assumes s: "s < n" and as: "a s = 0"
      and rows: "\<And>r c. r < n \<Longrightarrow> c \<le> n \<Longrightarrow>
                   M' ! r ! c mod 251 = (M ! r ! c - a r * M ! s ! c) mod 251"
  shows "sat n M' b = sat n M b"
proof -
  have srow: "M' ! s ! c mod 251 = M ! s ! c mod 251" if "c \<le> n" for c
    using rows [OF s that] as by simp
  have lhs: "(\<Sum>c<n. M' ! r ! c * b c) mod 251 =
             ((\<Sum>c<n. M ! r ! c * b c) - a r * (\<Sum>c<n. M ! s ! c * b c)) mod 251"
    if r: "r < n" for r
  proof -
    have "(\<Sum>c<n. M' ! r ! c * b c) mod 251 = (\<Sum>c<n. (M ! r ! c - a r * M ! s ! c) * b c) mod 251"
    proof (rule sum_mod_cong)
      fix c assume "c < n"
      then have "M' ! r ! c mod 251 = (M ! r ! c - a r * M ! s ! c) mod 251"
        using rows [OF r] by simp
      then show "M' ! r ! c * b c mod 251 = (M ! r ! c - a r * M ! s ! c) * b c mod 251"
        by (metis mod_mult_left_eq)
    qed
    also have "(\<Sum>c<n. (M ! r ! c - a r * M ! s ! c) * b c) =
               (\<Sum>c<n. M ! r ! c * b c) - a r * (\<Sum>c<n. M ! s ! c * b c)"
      by (simp add: sum_subtractf sum_distrib_left algebra_simps)
    finally show ?thesis .
  qed
  have rhs: "M' ! r ! n mod 251 = (M ! r ! n - a r * M ! s ! n) mod 251" if "r < n" for r
    using rows [OF that] by simp
  have satS: "(\<Sum>c<n. M ! s ! c * b c) mod 251 = M ! s ! n mod 251"
    if "sat n M b \<or> sat n M' b"
  proof -
    from that show ?thesis
    proof
      assume "sat n M b"
      with s show ?thesis by (simp add: sat_def)
    next
      assume "sat n M' b"
      with s have "(\<Sum>c<n. M' ! s ! c * b c) mod 251 = M' ! s ! n mod 251" by (simp add: sat_def)
      with lhs [OF s] rhs [OF s] as show ?thesis by simp
    qed
  qed
  have key: "((\<Sum>c<n. M' ! r ! c * b c) mod 251 = M' ! r ! n mod 251) =
             ((\<Sum>c<n. M ! r ! c * b c) mod 251 = M ! r ! n mod 251)"
    if r: "r < n" and S: "(\<Sum>c<n. M ! s ! c * b c) mod 251 = M ! s ! n mod 251" for r
  proof -
    let ?L = "\<Sum>c<n. M ! r ! c * b c"
    let ?S = "\<Sum>c<n. M ! s ! c * b c"
    have e: "(a r * ?S) mod 251 = (a r * M ! s ! n) mod 251"
      using S by (metis mod_mult_right_eq)
    have "((?L - a r * ?S) mod 251 = (M ! r ! n - a r * M ! s ! n) mod 251) =
          (?L mod 251 = M ! r ! n mod 251)"
    proof
      assume h: "(?L - a r * ?S) mod 251 = (M ! r ! n - a r * M ! s ! n) mod 251"
      have "?L mod 251 = ((?L - a r * ?S) + a r * ?S) mod 251" by simp
      also have "\<dots> = ((M ! r ! n - a r * M ! s ! n) + a r * M ! s ! n) mod 251"
        using h e by (rule mod_add_cong)
      finally show "?L mod 251 = M ! r ! n mod 251" by simp
    next
      assume h: "?L mod 251 = M ! r ! n mod 251"
      then show "(?L - a r * ?S) mod 251 = (M ! r ! n - a r * M ! s ! n) mod 251"
        using e by (rule mod_diff_cong)
    qed
    with lhs [OF r] rhs [OF r] show ?thesis by simp
  qed
  show ?thesis
  proof
    assume h: "sat n M' b"
    then have S: "(\<Sum>c<n. M ! s ! c * b c) mod 251 = M ! s ! n mod 251" using satS by blast
    with h key show "sat n M b" by (simp add: sat_def)
  next
    assume h: "sat n M b"
    then have S: "(\<Sum>c<n. M ! s ! c * b c) mod 251 = M ! s ! n mod 251" using satS by blast
    with h key show "sat n M' b" by (simp add: sat_def)
  qed
qed

subsection \<open>The invariant of the first phase\<close>

lemma lvl_simps:
  "j < i \<Longrightarrow> lvl j i i = j"
  "j < i \<Longrightarrow> lvl j i (i - 1) = j"
  "j < i \<Longrightarrow> lvl j (i - 1) i = Suc j"
  "r \<noteq> i \<Longrightarrow> lvl j (i - 1) r = lvl j i r"
  by (auto simp add: lvl_def min_def)

lemma lvl_next: "r < n \<Longrightarrow> lvl j j r = lvl (Suc j) (n - 1) r"
  by (auto simp add: lvl_def min_def)

lemma lvl_last: "r < n \<Longrightarrow> lvl (n - 1) (n - 1) r = r"
  by (auto simp add: lvl_def min_def)

lemma echelon_inv_entry:
  "echelon_inv xs n j i M \<Longrightarrow> r < n \<Longrightarrow> c < n \<Longrightarrow> M ! r ! c = nev xs (lvl j i r) r c mod 251"
  by (simp add: echelon_inv_def)

lemma echelon_inv_wf: "echelon_inv xs n j i M \<Longrightarrow> wfmat M n"
  by (simp add: echelon_inv_def)

lemma pivot_cancel:
  assumes "Wp mod 251 \<noteq> 0"
  shows "((Wi * h1) mod 251 - (Wp * h2) mod 251 * (Wi mod 251 * inv251 (Wp mod 251))) mod 251
         = (Wi * (h1 - h2)) mod 251"
proof -
  let ?q = "inv251 (Wp mod 251)"
  have one: "(Wp * ?q) mod 251 = 1" using assms by (rule inv251_cancel)
  have "((Wp * h2) mod 251 * (Wi mod 251 * ?q)) mod 251 = ((Wp * h2) * (Wi * ?q)) mod 251"
    by (rule mod_mult_cong) (simp_all add: mod_mult_left_eq)
  also have "(Wp * h2) * (Wi * ?q) = (Wp * ?q) * (h2 * Wi)" by (simp add: algebra_simps)
  also have "((Wp * ?q) * (h2 * Wi)) mod 251 = ((Wp * ?q) mod 251 * (h2 * Wi)) mod 251"
    by (simp add: mod_mult_left_eq)
  also have "\<dots> = (Wi * h2) mod 251" using one by (simp add: mult.commute)
  finally have e: "((Wp * h2) mod 251 * (Wi mod 251 * ?q)) mod 251 = (Wi * h2) mod 251" .
  have "((Wi * h1) mod 251 - (Wp * h2) mod 251 * (Wi mod 251 * ?q)) mod 251
        = ((Wi * h1) mod 251 - ((Wp * h2) mod 251 * (Wi mod 251 * ?q)) mod 251) mod 251"
    by (simp add: mod_diff_right_eq)
  also have "\<dots> = ((Wi * h1) mod 251 - (Wi * h2) mod 251) mod 251" by (simp only: e)
  also have "\<dots> = (Wi * h1 - Wi * h2) mod 251" by (simp add: mod_diff_eq)
  also have "Wi * h1 - Wi * h2 = Wi * (h1 - h2)" by (simp add: algebra_simps)
  finally show ?thesis .
qed

lemma echelon_row_step:
  assumes xs: "distinct xs" "\<forall>x\<in>set xs. 1 \<le> x \<and> x \<le> 250" "length xs = n"
      and inv: "echelon_inv xs n j i M" and ji: "j < i" and i: "i < n"
  shows "\<exists>a M'. elim_factor (M ! i ! j) (M ! (i - 1) ! j) = Inr a \<and>
                echelon_cols M i a j n = Inr M' \<and>
                echelon_inv xs n j (i - 1) M' \<and> (\<forall>b. sat n M' b = sat n M b)"
proof -
  let ?Wi = "wprod xs i j" and ?Wp = "wprod xs (i - 1) j"
  let ?a = "?Wi mod 251 * inv251 (?Wp mod 251)"
  from ji i have jn: "j < n" and i1: "i - 1 < n" and i0: "0 < i" by simp_all
  note wf = echelon_inv_wf [OF inv]
  have rowi: "M ! i ! c = nev xs j i c mod 251" if "c < n" for c
    using echelon_inv_entry [OF inv i that] ji by (simp add: lvl_simps)
  have rowp: "M ! (i - 1) ! c = nev xs j (i - 1) c mod 251" if "c < n" for c
    using echelon_inv_entry [OF inv i1 that] ji by (simp only: lvl_simps)
  have pi: "M ! i ! j = ?Wi mod 251" using rowi [OF jn] by (simp add: nev_diag)
  have pp: "M ! (i - 1) ! j = ?Wp mod 251" using rowp [OF jn] by (simp only: nev_diag)
  have nz: "?Wp mod 251 \<noteq> 0"
    using xs ji i by (intro wprod_nonzero) simp_all
  have fac: "elim_factor (M ! i ! j) (M ! (i - 1) ! j) = Inr ?a"
    and a0: "0 \<le> ?a" and a1: "?a \<le> 63750"
    unfolding pi pp by (rule elim_factor_ok; simp)+
  from echelon_cols_char [OF wf i0 i _ a0 a1, of j] jn
  obtain M' where M': "echelon_cols M i ?a j n = Inr M'" and wf': "wfmat M' n"
    and ent': "\<forall>r<n. \<forall>c\<le>n. M' ! r ! c =
           (if r = i \<and> j \<le> c then (M ! i ! c - M ! (i - 1) ! c * ?a) mod 251 else M ! r ! c)"
    by auto
  have new: "M' ! i ! c = nev xs (Suc j) i c mod 251" if c: "c < n" for c
  proof (cases "j \<le> c")
    case False
    then have "c < j" by simp
    then have "nev xs j i c = 0" "nev xs (Suc j) i c = 0" by (simp_all add: nev_below)
    moreover from ent' i c False have "M' ! i ! c = M ! i ! c" by simp
    ultimately show ?thesis using rowi [OF c] by simp
  next
    case True
    let ?h1 = "hsym (c - j) (take (Suc j) (drop (i - j) xs))"
    let ?h2 = "hsym (c - j) (take (Suc j) (drop (i - 1 - j) xs))"
    from True have n1: "nev xs j i c = ?Wi * ?h1" and n2: "nev xs j (i - 1) c = ?Wp * ?h2"
      by (simp_all add: nev_def)
    from ent' i c True have "M' ! i ! c = (M ! i ! c - M ! (i - 1) ! c * ?a) mod 251" by simp
    also have "\<dots> = ((?Wi * ?h1) mod 251 - (?Wp * ?h2) mod 251 * ?a) mod 251"
      by (simp only: rowi [OF c] rowp [OF c] n1 n2)
    also have "\<dots> = (?Wi * (?h1 - ?h2)) mod 251" using nz by (rule pivot_cancel)
    also have "?Wi * (?h1 - ?h2) = nev xs (Suc j) i c"
      using ji i xs(3) True by (intro nev_step) simp_all
    finally show ?thesis .
  qed
  have inv': "echelon_inv xs n j (i - 1) M'"
  proof -
    have "M' ! r ! c = nev xs (lvl j (i - 1) r) r c mod 251" if r: "r < n" and c: "c < n" for r c
    proof (cases "r = i")
      case True
      with new [OF c] ji show ?thesis by (simp only: lvl_simps)
    next
      case False
      with ent' r c have "M' ! r ! c = M ! r ! c" by simp
      with echelon_inv_entry [OF inv r c] show ?thesis by (simp only: lvl_simps(4) [OF False])
    qed
    with wf' show ?thesis by (simp add: echelon_inv_def)
  qed
  have "sat n M' b = sat n M b" for b
  proof (rule rowops_sat [where s = "i - 1" and a = "\<lambda>r. if r = i then ?a else 0"])
    show "i - 1 < n" by (rule i1)
    show "(if i - 1 = i then ?a else 0) = 0" using i0 by simp
    fix r c assume r: "r < n" and c: "c \<le> n"
    show "M' ! r ! c mod 251 = (M ! r ! c - (if r = i then ?a else 0) * M ! (i - 1) ! c) mod 251"
    proof (cases "r = i")
      case False
      with ent' r c show ?thesis by simp
    next
      case True
      show ?thesis
      proof (cases "j \<le> c")
        case True
        with ent' r c \<open>r = i\<close>
        have "M' ! r ! c = (M ! i ! c - M ! (i - 1) ! c * ?a) mod 251" by simp
        with \<open>r = i\<close> show ?thesis by (simp add: mult.commute)
      next
        case False
        then have cj: "c < j" by simp
        with jn have cn: "c < n" by simp
        from cj have "nev xs j (i - 1) c = 0" by (simp add: nev_below)
        with rowp [OF cn] have "M ! (i - 1) ! c = 0" by simp
        moreover from ent' r c False \<open>r = i\<close> have "M' ! r ! c = M ! i ! c" by simp
        ultimately show ?thesis using \<open>r = i\<close> by simp
      qed
    qed
  qed
  with fac M' inv' show ?thesis by blast
qed

lemma echelon_rows_inv:
  "distinct xs \<Longrightarrow> \<forall>x\<in>set xs. 1 \<le> x \<and> x \<le> 250 \<Longrightarrow> length xs = n \<Longrightarrow>
   echelon_inv xs n j i M \<Longrightarrow> j \<le> i \<Longrightarrow> i < n \<Longrightarrow>
   \<exists>M'. echelon_rows M j i n = Inr M' \<and> echelon_inv xs n j j M' \<and>
        (\<forall>b. sat n M' b = sat n M b)"
proof (induction M j i n rule: echelon_rows.induct)
  case (1 M j i n)
  show ?case
  proof (cases "i > j")
    case False
    with 1(6) have "i = j" by simp
    with 1(5) show ?thesis by (subst echelon_rows.simps) simp
  next
    case True
    from echelon_row_step [OF 1(2,3,4,5) True 1(7)]
    obtain a M1 where fac: "elim_factor (M ! i ! j) (M ! (i - 1) ! j) = Inr a"
      and cols: "echelon_cols M i a j n = Inr M1"
      and inv1: "echelon_inv xs n j (i - 1) M1"
      and sat1: "\<forall>b. sat n M1 b = sat n M b" by blast
    from True 1(7) have "j \<le> i - 1" "i - 1 < n" by simp_all
    from 1(1) [OF True fac cols 1(2,3,4) inv1 this]
    obtain M' where M': "echelon_rows M1 j (i - 1) n = Inr M'"
      and inv': "echelon_inv xs n j j M'"
      and sat': "\<forall>b. sat n M' b = sat n M1 b" by auto
    have "echelon_rows M j i n = Inr M'"
      using True fac cols M' by (subst echelon_rows.simps) simp
    with inv' sat' sat1 show ?thesis by simp
  qed
qed

lemma echelon_inv_final:
  "distinct xs \<Longrightarrow> \<forall>x\<in>set xs. 1 \<le> x \<and> x \<le> 250 \<Longrightarrow> length xs = n \<Longrightarrow>
   echelon_inv xs n j (n - 1) M \<Longrightarrow> j \<le> n - 1 \<Longrightarrow> 0 < n \<Longrightarrow>
   \<exists>M'. echelon M j n = Inr M' \<and> echelon_inv xs n (n - 1) (n - 1) M' \<and>
        (\<forall>b. sat n M' b = sat n M b)"
proof (induction M j n rule: echelon.induct)
  case (1 M j n)
  show ?case
  proof (cases "j < n - 1")
    case False
    with 1(6) have "j = n - 1" by simp
    with 1(5) show ?thesis by (subst echelon.simps) simp
  next
    case True
    from True 1(7) have "j \<le> n - 1" "n - 1 < n" by simp_all
    from echelon_rows_inv [OF 1(2,3,4,5) this]
    obtain M1 where rows: "echelon_rows M j (n - 1) n = Inr M1"
      and inv1: "echelon_inv xs n j j M1"
      and sat1: "\<forall>b. sat n M1 b = sat n M b" by auto
    have inv1': "echelon_inv xs n (j + 1) (n - 1) M1"
      using inv1 by (simp add: echelon_inv_def lvl_next [of _ n j])
    from True have "j + 1 \<le> n - 1" by simp
    from 1(1) [OF True rows 1(2,3,4) inv1' this 1(7)]
    obtain M' where M': "echelon M1 (j + 1) n = Inr M'"
      and inv': "echelon_inv xs n (n - 1) (n - 1) M'"
      and sat': "\<forall>b. sat n M' b = sat n M1 b" by auto
    have "echelon M j n = Inr M'"
      using True rows M' by (subst echelon.simps) simp
    with inv' sat' sat1 show ?thesis by simp
  qed
qed

subsection \<open>The loops of the second phase\<close>

lemma reduce_rows_char:
  "wfmat M n \<Longrightarrow> i < n \<Longrightarrow> t < int i \<Longrightarrow> - 1 \<le> t \<Longrightarrow>
   \<exists>M'. reduce_rows M i t n = Inr M' \<and> wfmat M' n \<and>
        (\<forall>r<n. \<forall>c\<le>n. M' ! r ! c =
           (if int r \<le> t \<and> c = n then (M ! r ! n - M ! i ! n * M ! r ! i) mod 251
            else if int r \<le> t \<and> c = i then 0 else M ! r ! c))"
proof (induction M i t n rule: reduce_rows.induct)
  case (1 M i t n)
  show ?case
  proof (cases "t \<ge> 0")
    case False
    then have "\<not> int r \<le> t" for r by simp
    with False 1(2) show ?thesis by (subst reduce_rows.simps) simp
  next
    case True
    define r0 where "r0 = nat t"
    from True 1(4) have r0i: "r0 < i" and r0t: "int r0 = t" by (simp_all add: r0_def)
    with 1(3) have r0n: "r0 < n" by simp
    let ?val = "(M ! r0 ! n - M ! i ! n * M ! r0 ! i) mod 251"
    let ?M1 = "mat_set (mat_set M r0 n ?val) r0 i 0"
    have rx: "in_range (M ! r0 ! n)" and rv: "in_range (M ! i ! n)" and rm: "in_range (M ! r0 ! i)"
      using 1(2,3) r0n by (auto intro: wfmat_entry)
    note ok = reduce_entry_ok [OF rx rv rm]
    have wfa: "wfmat (mat_set M r0 n ?val) n" using 1(2) r0n by (intro wfmat_mat_set) simp_all
    have wf1: "wfmat ?M1 n"
      by (rule wfmat_mat_set) (use wfa r0n 1(3) in \<open>simp_all add: in_range_def\<close>)
    have ent1: "?M1 ! r ! c = (if r = r0 \<and> c = i then 0
                               else if r = r0 \<and> c = n then ?val else M ! r ! c)" for r c
      using 1(2,3) r0n wfa by (simp add: mat_set_entry_wf [of _ n])
    have c1: "c_int (M ! i ! n * M ! nat t ! i) = Inr (M ! i ! n * M ! r0 ! i)"
      using ok(1) by (simp add: r0_def)
    have c2: "c_int (M ! nat t ! n - (M ! i ! n * M ! r0 ! i) smod PRIME)
                = Inr (M ! r0 ! n - (M ! i ! n * M ! r0 ! i) mod 251)"
      using ok(2) by (simp add: r0_def)
    have m3: "mod_util (M ! r0 ! n - (M ! i ! n * M ! r0 ! i) mod 251) PRIME = ?val"
      using ok(3) by simp
    have unf: "reduce_rows M i t n = reduce_rows ?M1 i (t - 1) n"
      using True c1 c2 m3 by (subst reduce_rows.simps) (simp add: r0_def)
    from 1(4,5) True have "t - 1 < int i" "- 1 \<le> t - 1" by simp_all
    from 1(1) [OF True c1 c2 _ 1(3) this] wf1 m3
    obtain M' where M': "reduce_rows ?M1 i (t - 1) n = Inr M'" and wf': "wfmat M' n"
      and ent': "\<forall>r<n. \<forall>c\<le>n. M' ! r ! c =
           (if int r \<le> t - 1 \<and> c = n then (?M1 ! r ! n - ?M1 ! i ! n * ?M1 ! r ! i) mod 251
            else if int r \<le> t - 1 \<and> c = i then 0 else ?M1 ! r ! c)"
      by (auto simp add: r0_def)
    have "M' ! r ! c =
           (if int r \<le> t \<and> c = n then (M ! r ! n - M ! i ! n * M ! r ! i) mod 251
            else if int r \<le> t \<and> c = i then 0 else M ! r ! c)"
      if r: "r < n" and c: "c \<le> n" for r c
    proof -
      from ent' r c have e: "M' ! r ! c =
           (if int r \<le> t - 1 \<and> c = n then (?M1 ! r ! n - ?M1 ! i ! n * ?M1 ! r ! i) mod 251
            else if int r \<le> t - 1 \<and> c = i then 0 else ?M1 ! r ! c)" by simp
      have ne: "i \<noteq> r0" "i \<noteq> n" using r0i 1(3) by simp_all
      consider "int r \<le> t - 1" | "r = r0" | "t < int r" using r0t by linarith
      then show ?thesis
      proof cases
        case 1
        then have "r \<noteq> r0" "int r \<le> t" using r0t by simp_all
        with e 1 ne show ?thesis by (simp add: ent1)
      next
        case 2
        then have "\<not> int r \<le> t - 1" "int r \<le> t" using r0t by simp_all
        with e 2 ne show ?thesis by (auto simp add: ent1)
      next
        case 3
        then have "\<not> int r \<le> t - 1" "\<not> int r \<le> t" "r \<noteq> r0" using r0t by auto
        with e show ?thesis by (simp add: ent1)
      qed
    qed
    with unf M' wf' show ?thesis by simp
  qed
qed

lemma scale_sat:
  assumes i: "i < n"
      and others: "\<And>r c. r < n \<Longrightarrow> r \<noteq> i \<Longrightarrow> c \<le> n \<Longrightarrow> M' ! r ! c = M ! r ! c"
      and row: "\<And>c. c \<le> n \<Longrightarrow> M' ! i ! c mod 251 = (q * M ! i ! c) mod 251"
      and inv: "(q * d) mod 251 = (1::int)"
  shows "sat n M' b = sat n M b"
proof -
  let ?L = "\<Sum>c<n. M ! i ! c * b c" and ?L' = "\<Sum>c<n. M' ! i ! c * b c"
  have L': "?L' mod 251 = (q * ?L) mod 251"
  proof -
    have "?L' mod 251 = (\<Sum>c<n. q * (M ! i ! c * b c)) mod 251"
    proof (rule sum_mod_cong)
      fix c assume "c < n"
      then have "M' ! i ! c mod 251 = (q * M ! i ! c) mod 251" using row by simp
      then have "M' ! i ! c * b c mod 251 = (q * M ! i ! c) * b c mod 251"
        by (metis mod_mult_left_eq)
      then show "M' ! i ! c * b c mod 251 = q * (M ! i ! c * b c) mod 251"
        by (simp add: mult.assoc)
    qed
    then show ?thesis by (simp add: sum_distrib_left)
  qed
  have R': "M' ! i ! n mod 251 = (q * M ! i ! n) mod 251" using row by simp
  have rowi: "(?L' mod 251 = M' ! i ! n mod 251) = (?L mod 251 = M ! i ! n mod 251)"
  proof
    assume "?L mod 251 = M ! i ! n mod 251"
    then have "(q * ?L) mod 251 = (q * M ! i ! n) mod 251" by (metis mod_mult_right_eq)
    with L' R' show "?L' mod 251 = M' ! i ! n mod 251" by simp
  next
    assume "?L' mod 251 = M' ! i ! n mod 251"
    with L' R' have "(q * ?L) mod 251 = (q * M ! i ! n) mod 251" by simp
    then have "(d * (q * ?L)) mod 251 = (d * (q * M ! i ! n)) mod 251"
      by (metis mod_mult_right_eq)
    then have "((q * d) * ?L) mod 251 = ((q * d) * M ! i ! n) mod 251"
      by (simp add: mult.assoc mult.left_commute mult.commute)
    then have "((q * d) mod 251 * ?L) mod 251 = ((q * d) mod 251 * M ! i ! n) mod 251"
      by (simp add: mod_mult_left_eq)
    then show "?L mod 251 = M ! i ! n mod 251" by (simp add: inv)
  qed
  have rest: "((\<Sum>c<n. M' ! r ! c * b c) mod 251 = M' ! r ! n mod 251) =
              ((\<Sum>c<n. M ! r ! c * b c) mod 251 = M ! r ! n mod 251)"
    if "r < n" "r \<noteq> i" for r
  proof -
    have "(\<Sum>c<n. M' ! r ! c * b c) = (\<Sum>c<n. M ! r ! c * b c)"
      using that others by (intro sum.cong) simp_all
    moreover have "M' ! r ! n = M ! r ! n" using that others by simp
    ultimately show ?thesis by simp
  qed
  show ?thesis unfolding sat_def
    using rowi rest by (metis (no_types, lifting))
qed

subsection \<open>The invariant of the second phase\<close>

lemma reduce_step:
  assumes inv: "reduce_inv n i M" and i0: "0 < i" and i: "i < n"
  shows "\<exists>v d M'. scale_entry (M ! i ! n) (M ! i ! i) = Inr v \<and>
           scale_entry (mat_set M i n v ! i ! i) (mat_set M i n v ! i ! i) = Inr d \<and>
           reduce_rows (mat_set (mat_set M i n v) i i d) i (int i - 1) n = Inr M' \<and>
           reduce_inv n (i - 1) M' \<and> (\<forall>b. sat n M' b = sat n M b)"
proof -
  from inv have wf: "wfmat M n"
    and low: "\<And>r c. r < n \<Longrightarrow> c < n \<Longrightarrow> c < r \<Longrightarrow> M ! r ! c = 0"
    and diag: "\<And>r. r < n \<Longrightarrow> r \<le> i \<Longrightarrow> M ! r ! r \<noteq> 0"
    and m00: "M ! 0 ! 0 = 1"
    and unit: "\<And>r c. r < n \<Longrightarrow> c < n \<Longrightarrow> i < r \<Longrightarrow> M ! r ! c = (if c = r then 1 else 0)"
    and clr: "\<And>r c. r < n \<Longrightarrow> c < n \<Longrightarrow> r \<le> i \<Longrightarrow> i < c \<Longrightarrow> M ! r ! c = 0"
    by (simp_all add: reduce_inv_def)
  let ?d0 = "M ! i ! i"
  let ?q = "inv251 ?d0"
  let ?v = "(M ! i ! n * ?q) mod 251"
  let ?M1 = "mat_set M i n ?v"
  let ?M2 = "mat_set ?M1 i i 1"
  have rd: "in_range ?d0" and rn: "in_range (M ! i ! n)"
    using wf i by (auto intro: wfmat_entry)
  from rd diag [OF i] have d1: "1 \<le> ?d0" "?d0 \<le> 250" by (simp_all add: in_range_def)
  then have one: "(?d0 * ?q) mod 251 = 1" by (rule inv251_mult)
  have s1: "scale_entry (M ! i ! n) ?d0 = Inr ?v" using rn rd by (rule scale_entry_ok)
  have wf1: "wfmat ?M1 n" by (rule wfmat_mat_set [OF wf i le_refl]) simp
  have ent1: "?M1 ! r ! c = (if r = i \<and> c = n then ?v else M ! r ! c)" for r c
    by (rule mat_set_entry_wf [OF wf i le_refl])
  have dd: "?M1 ! i ! i = ?d0" using i by (simp add: ent1)
  have s2: "scale_entry (?M1 ! i ! i) (?M1 ! i ! i) = Inr 1"
    unfolding dd using scale_entry_ok [OF rd rd] one by simp
  have wf2: "wfmat ?M2 n"
    by (rule wfmat_mat_set) (use wf1 i in \<open>simp_all add: in_range_def\<close>)
  have ent2: "?M2 ! r ! c = (if r = i \<and> c = i then 1 else if r = i \<and> c = n then ?v else M ! r ! c)"
    for r c
    using wf1 i by (simp add: mat_set_entry_wf [of _ n] ent1)
  have rowi2: "?M2 ! i ! c = (if c = i then 1 else 0)" if "c < n" for c
  proof -
    consider "c < i" | "c = i" | "i < c" by linarith
    then show ?thesis
    proof cases
      case 1
      with low [OF i that] that show ?thesis by (simp add: ent2)
    next
      case 2
      then show ?thesis by (simp add: ent2)
    next
      case 3
      with clr [OF i that] that show ?thesis by (simp add: ent2)
    qed
  qed
  have sat2: "sat n ?M2 b = sat n M b" for b
  proof (rule scale_sat [OF i, where q = ?q and d = ?d0])
    fix r c assume "r < n" "r \<noteq> i" "c \<le> n"
    then show "?M2 ! r ! c = M ! r ! c" by (simp add: ent2)
  next
    fix c assume c: "c \<le> n"
    consider "c = n" | "c = i" | "c < n" "c \<noteq> i" using c by linarith
    then show "?M2 ! i ! c mod 251 = (?q * M ! i ! c) mod 251"
    proof cases
      case 1
      with i show ?thesis by (simp add: ent2 mult.commute)
    next
      case 2
      with one show ?thesis by (simp add: ent2 mult.commute)
    next
      case 3
      from rowi2 [OF 3(1)] 3(2) have "?M2 ! i ! c = 0" by simp
      moreover from 3 have "?M2 ! i ! c = M ! i ! c" by (simp add: ent2)
      ultimately show ?thesis by simp
    qed
  next
    show "(?q * ?d0) mod 251 = 1" using one by (simp add: mult.commute)
  qed
  have "int i - 1 < int i" "- 1 \<le> int i - 1" by simp_all
  from reduce_rows_char [OF wf2 i this]
  obtain M' where M': "reduce_rows ?M2 i (int i - 1) n = Inr M'" and wf': "wfmat M' n"
    and ent': "\<forall>r<n. \<forall>c\<le>n. M' ! r ! c =
           (if int r \<le> int i - 1 \<and> c = n then (?M2 ! r ! n - ?M2 ! i ! n * ?M2 ! r ! i) mod 251
            else if int r \<le> int i - 1 \<and> c = i then 0 else ?M2 ! r ! c)"
    by blast
  have entM: "M' ! r ! c =
           (if r < i \<and> c = n then (?M2 ! r ! n - ?M2 ! i ! n * ?M2 ! r ! i) mod 251
            else if r < i \<and> c = i then 0 else ?M2 ! r ! c)" if "r < n" "c \<le> n" for r c
  proof -
    have "(int r \<le> int i - 1) = (r < i)" by linarith
    with ent' that show ?thesis by simp
  qed
  have sat': "sat n M' b = sat n ?M2 b" for b
  proof (rule rowops_sat [where s = i and a = "\<lambda>r. if r < i then ?M2 ! r ! i else 0"])
    show "i < n" by (rule i)
    show "(if i < i then ?M2 ! i ! i else 0) = 0" by simp
    fix r c assume r: "r < n" and c: "c \<le> n"
    show "M' ! r ! c mod 251 =
            (?M2 ! r ! c - (if r < i then ?M2 ! r ! i else 0) * ?M2 ! i ! c) mod 251"
    proof (cases "r < i")
      case False
      with entM [OF r c] show ?thesis by simp
    next
      case True
      consider "c = n" | "c = i" | "c < n" "c \<noteq> i" using c by linarith
      then show ?thesis
      proof cases
        case 1
        with entM [OF r c] True show ?thesis by (simp add: mult.commute)
      next
        case 2
        with entM [OF r c] True i rowi2 [OF i] show ?thesis by simp
      next
        case 3
        with entM [OF r c] True rowi2 [OF 3(1)] show ?thesis by simp
      qed
    qed
  qed
  have keep: "M' ! r ! c = M ! r ! c" if "r < n" "c < n" "r < i" "c \<noteq> i" for r c
    using entM [of r c] that by (simp add: ent2)
  have rows_ge: "M' ! r ! c = ?M2 ! r ! c" if "r < n" "c < n" "i \<le> r" for r c
    using entM [of r c] that by simp
  have inv': "reduce_inv n (i - 1) M'"
    unfolding reduce_inv_def
  proof (intro conjI allI impI)
    show "wfmat M' n" by (rule wf')
  next
    fix r c assume r: "r < n" and c: "c < n" and cr: "c < r"
    show "M' ! r ! c = 0"
    proof (cases "r < i")
      case True
      with cr have "c \<noteq> i" by simp
      with keep [OF r c True] low [OF r c cr] show ?thesis by simp
    next
      case False
      then have ge: "i \<le> r" by simp
      show ?thesis
      proof (cases "r = i")
        case True
        with rows_ge [OF r c ge] rowi2 [OF c] cr show ?thesis by simp
      next
        case False
        with ge have "i < r" by simp
        with rows_ge [OF r c ge] unit [OF r c] cr False show ?thesis by (simp add: ent2)
      qed
    qed
  next
    fix r assume r: "r < n" and ri: "r \<le> i - 1"
    with i0 have lt: "r < i" by simp
    then have "r \<noteq> i" by simp
    with keep [OF r r lt] diag [OF r] lt show "M' ! r ! r \<noteq> 0" by simp
  next
    from i0 i have "0 < n" "(0::nat) \<noteq> i" by simp_all
    with keep [of 0 0] i0 m00 show "M' ! 0 ! 0 = 1" by simp
  next
    fix r c assume r: "r < n" and c: "c < n" and ir: "i - 1 < r"
    then have ge: "i \<le> r" by simp
    show "M' ! r ! c = (if c = r then 1 else 0)"
    proof (cases "r = i")
      case True
      with rows_ge [OF r c ge] rowi2 [OF c] show ?thesis by simp
    next
      case False
      with ge have "i < r" by simp
      with rows_ge [OF r c ge] unit [OF r c] False show ?thesis by (simp add: ent2)
    qed
  next
    fix r c assume r: "r < n" and c: "c < n" and ri: "r \<le> i - 1" and ic: "i - 1 < c"
    with i0 have lt: "r < i" and ge: "i \<le> c" by simp_all
    show "M' ! r ! c = 0"
    proof (cases "c = i")
      case True
      with entM [of r c] r c lt i show ?thesis by simp
    next
      case False
      with ge have "i < c" by simp
      with keep [OF r c lt False] clr [OF r c] lt show ?thesis by simp
    qed
  qed
  from s1 s2 M' inv' sat' sat2 show ?thesis by blast
qed

lemma reduce_inv_final:
  "reduce_inv n i M \<Longrightarrow> i < n \<Longrightarrow>
   \<exists>M'. reduce M i n = Inr M' \<and> reduce_inv n 0 M' \<and> (\<forall>b. sat n M' b = sat n M b)"
proof (induction M i n rule: reduce.induct)
  case (1 M i n)
  show ?case
  proof (cases "i > 0")
    case False
    with 1(2) show ?thesis by (subst reduce.simps) simp
  next
    case True
    from reduce_step [OF 1(2) True 1(3)]
    obtain v d M1 where s1: "scale_entry (M ! i ! n) (M ! i ! i) = Inr v"
      and s2: "scale_entry (mat_set M i n v ! i ! i) (mat_set M i n v ! i ! i) = Inr d"
      and rr: "reduce_rows (mat_set (mat_set M i n v) i i d) i (int i - 1) n = Inr M1"
      and inv1: "reduce_inv n (i - 1) M1"
      and sat1: "\<forall>b. sat n M1 b = sat n M b" by blast
    from 1(3) have "i - 1 < n" by simp
    from 1(1) [OF True s1 refl s2 rr inv1 this]
    obtain M' where M': "reduce M1 (i - 1) n = Inr M'" and inv': "reduce_inv n 0 M'"
      and sat': "\<forall>b. sat n M' b = sat n M1 b" by blast
    have "reduce M i n = Inr M'"
      using True s1 s2 rr M' by (subst reduce.simps) (simp add: Let_def)
    with inv' sat' sat1 show ?thesis by simp
  qed
qed

lemma sat_unit:
  assumes inv: "reduce_inv n 0 M" and n: "0 < n"
  shows "sat n M b = (\<forall>r<n. b r mod 251 = M ! r ! n)"
proof -
  from inv have wf: "wfmat M n" by (simp add: reduce_inv_def)
  have ent: "M ! r ! c = (if c = r then 1 else 0)" if r: "r < n" and c: "c < n" for r c
  proof (cases "0 < r")
    case True
    with inv r c show ?thesis by (simp add: reduce_inv_def)
  next
    case False
    then have r0: "r = 0" by simp
    show ?thesis
    proof (cases "c = 0")
      case True
      with inv r0 show ?thesis by (simp add: reduce_inv_def)
    next
      case False
      then have "0 < c" by simp
      moreover from inv
      have "\<forall>r<n. \<forall>c<n. r \<le> 0 \<longrightarrow> 0 < c \<longrightarrow> M ! r ! c = 0" unfolding reduce_inv_def by blast
      ultimately have "M ! 0 ! c = 0" using n c by blast
      with r0 False show ?thesis by simp
    qed
  qed
  have "(\<Sum>c<n. M ! r ! c * b c) = b r" if r: "r < n" for r
  proof -
    have "(\<Sum>c<n. M ! r ! c * b c) = (\<Sum>c<n. if c = r then b c else 0)"
      using ent [OF r] by (intro sum.cong) simp_all
    also have "\<dots> = b r" using r by (simp add: sum.delta)
    finally show ?thesis .
  qed
  moreover have "M ! r ! n mod 251 = M ! r ! n" if "r < n" for r
    using wfmat_entry [OF wf that, of n] by (simp add: in_range_mod_id)
  ultimately show ?thesis by (simp add: sat_def)
qed

subsection \<open>The Vandermonde system\<close>

lemma vandermonde_entry:
  assumes "r < length xs" and "c \<le> length xs"
  shows "vandermonde xs ys ! r ! c = (if c < length xs then xs ! r ^ c mod 251 else ys ! r)"
proof -
  have "vandermonde xs ys ! r = map (\<lambda>t. (xs ! r) ^ t mod 251) [0..<length xs] @ [ys ! r]"
    using assms(1) by (simp add: vandermonde_def)
  then show ?thesis using assms(2) by (auto simp add: nth_append)
qed

lemma vandermonde_wf:
  assumes "length ys = length xs" and "\<forall>y\<in>set ys. 0 \<le> y \<and> y \<le> 250"
  shows "wfmat (vandermonde xs ys) (length xs)"
proof -
  have "length (vandermonde xs ys) = length xs" by (simp add: vandermonde_def)
  moreover have "length (vandermonde xs ys ! r) = length xs + 1" if "r < length xs" for r
    using that by (simp add: vandermonde_def)
  moreover have "in_range (vandermonde xs ys ! r ! c)" if "r < length xs" "c \<le> length xs" for r c
  proof (cases "c < length xs")
    case True
    with that show ?thesis by (simp add: vandermonde_entry)
  next
    case False
    from that(1) assms have "ys ! r \<in> set ys" by simp
    with assms(2) have "in_range (ys ! r)" by (simp add: in_range_def)
    with False that show ?thesis by (simp add: vandermonde_entry)
  qed
  ultimately show ?thesis by (simp add: wfmat_def)
qed

lemma vandermonde_inv:
  assumes "length ys = length xs" and "\<forall>y\<in>set ys. 0 \<le> y \<and> y \<le> 250"
  shows "echelon_inv xs (length xs) 0 (length xs - 1) (vandermonde xs ys)"
proof -
  have "vandermonde xs ys ! r ! c = nev xs (lvl 0 (length xs - 1) r) r c mod 251"
    if "r < length xs" "c < length xs" for r c
  proof -
    from that have "lvl 0 (length xs - 1) r = 0" by (simp add: lvl_def)
    with that show ?thesis by (simp add: vandermonde_entry nev_0)
  qed
  with vandermonde_wf [OF assms] show ?thesis by (simp add: echelon_inv_def)
qed

lemma echelon_to_reduce:
  assumes xs: "distinct xs" "\<forall>x\<in>set xs. 1 \<le> x \<and> x \<le> 250" "length xs = n" and n: "0 < n"
      and inv: "echelon_inv xs n (n - 1) (n - 1) M"
  shows "reduce_inv n (n - 1) M"
proof -
  have ent: "M ! r ! c = nev xs r r c mod 251" if "r < n" "c < n" for r c
    using echelon_inv_entry [OF inv that] lvl_last [OF that(1)] by simp
  show ?thesis unfolding reduce_inv_def
  proof (intro conjI allI impI)
    show "wfmat M n" using inv by (rule echelon_inv_wf)
  next
    fix r c assume "r < n" "c < n" "c < r"
    then show "M ! r ! c = 0" by (simp add: ent nev_below)
  next
    fix r assume r: "r < n"
    have "wprod xs r r mod 251 \<noteq> 0" using xs r by (intro wprod_nonzero) simp_all
    with r show "M ! r ! r \<noteq> 0" by (simp add: ent nev_diag)
  next
    from n xs(3) have "nev xs 0 0 0 = 1" by (simp add: nev_0)
    with n show "M ! 0 ! 0 = 1" by (simp add: ent)
  next
    fix r c assume "r < n" "n - 1 < r"
    then have False by simp
    then show "M ! r ! c = (if c = r then 1 else 0)" ..
  next
    fix r c :: nat assume "c < n" "n - 1 < c"
    then have False by simp
    then show "M ! r ! c = 0" ..
  qed
qed

lemma sat_vandermonde:
  assumes "length ys = length xs" and "\<forall>y\<in>set ys. 0 \<le> y \<and> y \<le> 250"
  shows "sat (length xs) (vandermonde xs ys) b =
           (\<forall>j<length xs. (\<Sum>i<length xs. b i * xs ! j ^ i) mod 251 = ys ! j)"
proof -
  let ?n = "length xs"
  have l: "(\<Sum>c<?n. vandermonde xs ys ! r ! c * b c) mod 251 = (\<Sum>c<?n. b c * xs ! r ^ c) mod 251"
    if r: "r < ?n" for r
  proof (rule sum_mod_cong)
    fix c assume "c < ?n"
    with r have "vandermonde xs ys ! r ! c = xs ! r ^ c mod 251" by (simp add: vandermonde_entry)
    then show "vandermonde xs ys ! r ! c * b c mod 251 = b c * xs ! r ^ c mod 251"
      by (simp add: mod_mult_right_eq mult.commute)
  qed
  have r: "vandermonde xs ys ! r ! ?n mod 251 = ys ! r" if r: "r < ?n" for r
  proof -
    from r assms have "ys ! r \<in> set ys" by simp
    with assms(2) have "0 \<le> ys ! r" "ys ! r \<le> 250" by simp_all
    with r show ?thesis by (simp add: vandermonde_entry)
  qed
  show ?thesis by (simp add: sat_def l r)
qed

text \<open>
  C2. For \<open>k \<ge> 2\<close> sample points \<open>(x\<^sub>j, y\<^sub>j)\<close> with distinct \<open>x\<^sub>j\<close> in \<open>1..250\<close> and
  \<open>y\<^sub>j\<close> in \<open>0..250\<close>, \<open>findcoefficients\<close> on the augmented Vandermonde matrix
  \<open>M[j][t] = x\<^sub>j ^ t mod 251\<close>, \<open>M[j][k] = y\<^sub>j\<close> returns (without leaving the range
  of \<open>int\<close> or of the inverse table) a matrix whose column \<open>k\<close> holds
  coefficients \<open>a\<^sub>i = M[i][k]\<close> in \<open>0..250\<close> with
  \<open>y\<^sub>j = (\<Sum>i<k. a\<^sub>i * x\<^sub>j ^ i) mod 251\<close> for all \<open>j\<close>, and these are the only such
  coefficients in \<open>0..250\<close>.
\<close>

theorem findcoefficients_vandermonde:
  assumes k: "2 \<le> unat k"
      and lx: "length xs = unat k" and ly: "length ys = unat k"
      and dist: "distinct xs"
      and xr: "\<forall>x\<in>set xs. 1 \<le> x \<and> x \<le> 250"
      and yr: "\<forall>y\<in>set ys. 0 \<le> y \<and> y \<le> 250"
  shows "\<exists>M. findcoefficients (vandermonde xs ys) k = Inr M \<and>
           (\<forall>i<unat k. 0 \<le> M ! i ! unat k \<and> M ! i ! unat k \<le> 250) \<and>
           (\<forall>j<unat k. (\<Sum>i<unat k. M ! i ! unat k * xs ! j ^ i) mod 251 = ys ! j) \<and>
           (\<forall>b. (\<forall>i<unat k. 0 \<le> b i \<and> b i \<le> 250) \<and>
                (\<forall>j<unat k. (\<Sum>i<unat k. b i * xs ! j ^ i) mod 251 = ys ! j)
                \<longrightarrow> (\<forall>i<unat k. b i = M ! i ! unat k))"
proof -
  let ?n = "unat k"
  let ?V = "vandermonde xs ys"
  from k have n0: "0 < ?n" and n1: "?n - 1 < ?n" by simp_all
  from ly lx have lyx: "length ys = length xs" by simp
  have inv0: "echelon_inv xs ?n 0 (?n - 1) ?V"
    using vandermonde_inv [OF lyx yr] lx by simp
  from echelon_inv_final [OF dist xr lx inv0 _ n0]
  obtain M1 where e: "echelon ?V 0 ?n = Inr M1"
    and inv1: "echelon_inv xs ?n (?n - 1) (?n - 1) M1"
    and sat1: "\<forall>b. sat ?n M1 b = sat ?n ?V b" by auto
  have rinv: "reduce_inv ?n (?n - 1) M1"
    using dist xr lx n0 inv1 by (rule echelon_to_reduce)
  from reduce_inv_final [OF rinv n1]
  obtain M where r: "reduce M1 (?n - 1) ?n = Inr M"
    and inv2: "reduce_inv ?n 0 M"
    and sat2: "\<forall>b. sat ?n M b = sat ?n M1 b" by blast
  have fc: "findcoefficients ?V k = Inr M" using e r by (simp add: findcoefficients_def)
  have wf: "wfmat M ?n" using inv2 by (simp add: reduce_inv_def)
  have rng: "0 \<le> M ! i ! ?n \<and> M ! i ! ?n \<le> 250" if "i < ?n" for i
    using wfmat_entry [OF wf that, of ?n] by (simp add: in_range_def)
  have sol: "(\<forall>j<?n. (\<Sum>i<?n. b i * xs ! j ^ i) mod 251 = ys ! j) = (\<forall>r<?n. b r mod 251 = M ! r ! ?n)"
    for b
  proof -
    have "sat ?n M b = sat ?n ?V b" using sat1 sat2 by simp
    moreover have "sat ?n M b = (\<forall>r<?n. b r mod 251 = M ! r ! ?n)"
      using inv2 n0 by (rule sat_unit)
    moreover have "sat ?n ?V b = (\<forall>j<?n. (\<Sum>i<?n. b i * xs ! j ^ i) mod 251 = ys ! j)"
      using sat_vandermonde [OF lyx yr, of b] lx by simp
    ultimately show ?thesis by simp
  qed
  have own: "\<forall>j<?n. (\<Sum>i<?n. M ! i ! ?n * xs ! j ^ i) mod 251 = ys ! j"
  proof -
    have "(M ! r ! ?n) mod 251 = M ! r ! ?n" if "r < ?n" for r
      using wfmat_entry [OF wf that, of ?n] by (simp add: in_range_mod_id)
    then show ?thesis using sol [of "\<lambda>i. M ! i ! ?n"] by simp
  qed
  have uniq: "\<forall>i<?n. b i = M ! i ! ?n"
    if b: "(\<forall>i<?n. 0 \<le> b i \<and> b i \<le> 250) \<and>
           (\<forall>j<?n. (\<Sum>i<?n. b i * xs ! j ^ i) mod 251 = ys ! j)" for b
  proof (intro allI impI)
    fix i assume i: "i < ?n"
    from b sol [of b] i have "b i mod 251 = M ! i ! ?n" by simp
    moreover from b i have "0 \<le> b i" "b i < 251" by auto
    then have "b i mod 251 = b i" by simp
    ultimately show "b i = M ! i ! ?n" by simp
  qed
  from fc rng own uniq show ?thesis by blast
qed

lemma vandermonde_example:
  "vandermonde [1, 2, 3] [30, 50, 100] = [[1, 1, 1, 30], [1, 2, 4, 50], [1, 3, 9, 100]]"
  by (simp add: vandermonde_def upt_rec [of 0 3] upt_rec [of 1 3] upt_rec [of 2 3])

lemma modinv_more: "modinv ! 3 = 84" "modinv ! 4 = 63" "modinv ! 6 = 42"
  by (simp_all add: modinv_def)

lemma findcoefficients_example:
  "findcoefficients (vandermonde [1, 2, 3] [30, 50, 100]) 3 =
     Inr [[1, 0, 0, 40], [0, 1, 0, 226], [0, 0, 1, 15]]"
  by (simp add: vandermonde_example fc_simps modinv_small modinv_more)

theorem findcoefficients_vandermonde_witness:
  "2 \<le> unat (3::uint16) \<and> length [1, 2, 3 :: int] = unat (3::uint16) \<and>
   length [30, 50, 100 :: int] = unat (3::uint16) \<and> distinct [1, 2, 3 :: int] \<and>
   list_all (\<lambda>x. 1 \<le> x \<and> x \<le> 250) [1, 2, 3 :: int] \<and>
   list_all (\<lambda>y. 0 \<le> y \<and> y \<le> 250) [30, 50, 100 :: int] \<and>
   (\<exists>M. findcoefficients (vandermonde [1, 2, 3] [30, 50, 100]) 3 = Inr M \<and>
        (\<forall>i<unat (3::uint16). 0 \<le> M ! i ! unat (3::uint16) \<and> M ! i ! unat (3::uint16) \<le> 250) \<and>
        (\<forall>j<unat (3::uint16).
           (\<Sum>i<unat (3::uint16). M ! i ! unat (3::uint16) * [1, 2, 3] ! j ^ i) mod 251
             = [30, 50, 100] ! j))"
proof -
  have h1: "2 \<le> unat (3::uint16)" by simp
  have h2: "length [1, 2, 3 :: int] = unat (3::uint16)" by simp
  have h3: "length [30, 50, 100 :: int] = unat (3::uint16)" by simp
  have h4: "distinct [1, 2, 3 :: int]" by simp
  have h5: "\<forall>x\<in>set [1, 2, 3 :: int]. 1 \<le> x \<and> x \<le> 250" by simp
  have h6: "\<forall>y\<in>set [30, 50, 100 :: int]. 0 \<le> y \<and> y \<le> 250" by simp
  from findcoefficients_vandermonde [OF h1 h2 h3 h4 h5 h6]
  obtain M where "findcoefficients (vandermonde [1, 2, 3] [30, 50, 100]) 3 = Inr M"
    and "\<forall>i<unat (3::uint16). 0 \<le> M ! i ! unat (3::uint16) \<and> M ! i ! unat (3::uint16) \<le> 250"
    and "\<forall>j<unat (3::uint16).
           (\<Sum>i<unat (3::uint16). M ! i ! unat (3::uint16) * [1, 2, 3] ! j ^ i) mod 251
             = [30, 50, 100] ! j"
    by blast
  with h1 h2 h3 h4 show ?thesis by auto
qed

end
